theory Spec2Isabelle
  imports Main "HOL-Library.Multiset" "HOL-Library.Sublist"
begin

section \<open>Values, errors and callbacks\<close>

text \<open>
  The values that cross the store's interface: actions, states, and references to
  functions. A function value is \<open>Func k\<close>, the \<open>k\<close>-th entry of the function table
  of the program under test; two function values are the same function exactly when
  they have the same index (JavaScript's reference identity of closures).
\<close>

datatype jsval =
    Undefined
  | Null
  | Bool bool
  | Num int
  | Str string
  | Arr "jsval list"
  | Obj "(string \<times> jsval) list"
  | Func nat

datatype error = Error string | TypeError string

text \<open>How a call ends: it returns a value or throws. The store reached is kept in
  both cases, since a JavaScript exception undoes none of the assignments made before it.\<close>

datatype 'a completion = Returned 'a | Thrown error

text \<open>
  What the code handed to the store (reducers, listeners) can do to the store: the calls
  of the store's interface, \<open>throw\<close>, \<open>try { ... } catch (e) {}\<close>, a branch on
  \<open>store.getState()\<close>, and a write to a log that the callbacks own. \<open>Unsubscribe t\<close>
  calls the closure returned by the \<open>t\<close>-th successful call of \<open>subscribe\<close>
  (counted from 0). The theorems below hold for every program written with these
  commands; JavaScript that does more than that is outside the model.
\<close>

datatype cmd =
    Dispatch jsval
  | Subscribe jsval
  | Unsubscribe nat
  | GetState
  | ReplaceReducer jsval
  | Throw error
  | Log string
  | Try "cmd list"
  | IfState "jsval \<Rightarrow> bool" "cmd list" "cmd list"

text \<open>A function of the program: the store calls its body makes, then the value it
  returns from its two parameters (a reducer's \<open>state\<close> and \<open>action\<close>; a listener is
  called with none, so both are \<open>undefined\<close>), or the error it throws.\<close>

record func =
  body :: "cmd list"
  result :: "jsval \<Rightarrow> jsval \<Rightarrow> error + jsval"

type_synonym program = "nat \<Rightarrow> func"

section \<open>The store of createStore\<close>

text \<open>
  The variables closed over by the operations of one store. \<open>currentListeners\<close> and
  \<open>nextListeners\<close> are references to arrays: addresses into \<open>arrays\<close>, so that
  \<open>nextListeners === currentListeners\<close> is equality of addresses and \<open>slice()\<close>
  allocates. \<open>subscriptions\<close> holds the variables of each \<open>unsubscribe\<close> closure
  (\<open>listener\<close>, \<open>isSubscribed\<close>), in order of creation. \<open>log\<close> belongs to the
  callbacks; no store operation reads it.
\<close>

record store =
  currentReducer :: jsval
  currentState :: jsval
  currentListeners :: nat
  nextListeners :: nat
  isDispatching :: bool
  arrays :: "jsval list list"
  subscriptions :: "(jsval \<times> bool) list"
  log :: "string list"

text \<open>
\<open>typeof v === 'function'\<close>.
\<close>

definition isFunction :: "jsval \<Rightarrow> bool" where
  "isFunction v = (case v of Func _ \<Rightarrow> True | _ \<Rightarrow> False)"

text \<open>Modelled from the spec: \<open>utils/isPlainObject\<close> is imported by createStore and is
  not among the sources. The spec calls it a predicate that "distinguishes ordinary
  structured records from arrays/class instances/null/primitives".\<close>

definition isPlainObject :: "jsval \<Rightarrow> bool" where
  "isPlainObject v = (case v of Obj _ \<Rightarrow> True | _ \<Rightarrow> False)"

text \<open>Modelled from the spec: \<open>utils/actionTypes\<close> is not among the sources. The spec
  gives two reserved discriminators, "init" and "replace", carried by actions with no
  other field.\<close>

definition ActionTypes_INIT :: jsval where
  "ActionTypes_INIT = Str ''@@redux/INIT''"

definition ActionTypes_REPLACE :: jsval where
  "ActionTypes_REPLACE = Str ''@@redux/REPLACE''"

text \<open>Property access \<open>v.k\<close>: \<open>undefined\<close> when the record has no such field.\<close>

definition getProp :: "jsval \<Rightarrow> string \<Rightarrow> jsval" where
  "getProp v k = (case v of
      Obj kvs \<Rightarrow> (case map_of kvs k of None \<Rightarrow> Undefined | Some x \<Rightarrow> x)
    | _ \<Rightarrow> Undefined)"

text \<open>\<open>Array.prototype.indexOf\<close>: the first index holding the value, or -1.\<close>

fun indexOf :: "'a list \<Rightarrow> 'a \<Rightarrow> int" where
  "indexOf [] x = - 1"
| "indexOf (y # ys) x =
     (if y = x then 0 else (let r = indexOf ys x in if r = - 1 then - 1 else r + 1))"

text \<open>\<open>Array.prototype.splice(start, deleteCount)\<close> with no inserted items: a negative
  start counts from the end, and both numbers are clamped to the array.\<close>

definition splice :: "'a list \<Rightarrow> int \<Rightarrow> int \<Rightarrow> 'a list" where
  "splice xs start deleteCount =
     (let len = int (length xs);
          from = (if start < 0 then max (len + start) 0 else min start len);
          cnt = min (max deleteCount 0) (len - from)
      in take (nat from) xs @ drop (nat (from + cnt)) xs)"

text \<open>
  \<open>slice()\<close> allocates a new array, a copy of the committed one, at the next free
  address.
\<close>

definition ensureCanMutateNextListeners :: "store \<Rightarrow> store" where
  "ensureCanMutateNextListeners s =
     (if nextListeners s = currentListeners s
      then s\<lparr>nextListeners := length (arrays s),
             arrays := arrays s @ [arrays s ! currentListeners s]\<rparr>
      else s)"

definition getState :: "store \<Rightarrow> jsval completion \<times> store" where
  "getState s =
     (if isDispatching s
      then (Thrown (Error (''You may not call store.getState() while the reducer is executing. '' @
                           ''The reducer has already received the state as an argument. '' @
                           ''Pass it down from the top reducer instead of reading it from the store.'')), s)
      else (Returned (currentState s), s))"

text \<open>\<open>subscribe\<close> returns the new \<open>unsubscribe\<close> closure, here its index in
  \<open>subscriptions\<close>.\<close>

definition subscribe :: "jsval \<Rightarrow> store \<Rightarrow> nat completion \<times> store" where
  "subscribe listener s =
     (if \<not> isFunction listener
      then (Thrown (Error ''Expected the listener to be a function.''), s)
      else if isDispatching s
      then (Thrown (Error (''You may not call store.subscribe() while the reducer is executing. '' @
                           ''If you would like to be notified after the store has been updated, subscribe from a '' @
                           ''component and invoke store.getState() in the callback to access the latest state. '' @
                           ''See https://redux.js.org/api-reference/store#subscribe(listener) for more details.'')), s)
      else
        (let s1 = s\<lparr>subscriptions := subscriptions s @ [(listener, True)]\<rparr>;
             s2 = ensureCanMutateNextListeners s1;
             s3 = s2\<lparr>arrays := (arrays s2)[nextListeners s2 :=
                                     arrays s2 ! nextListeners s2 @ [listener]]\<rparr>
         in (Returned (length (subscriptions s)), s3)))"

text \<open>The closure returned by \<open>subscribe\<close>, for a closure \<open>t\<close> that exists
  (\<open>t < length (subscriptions s)\<close>).\<close>

definition unsubscribe :: "nat \<Rightarrow> store \<Rightarrow> unit completion \<times> store" where
  "unsubscribe t s =
     (let listener = fst (subscriptions s ! t);
          isSubscribed = snd (subscriptions s ! t)
      in if \<not> isSubscribed then (Returned (), s)
         else if isDispatching s
         then (Thrown (Error (''You may not unsubscribe from a store listener while the reducer is executing. '' @
                              ''See https://redux.js.org/api-reference/store#subscribe(listener) for more details.'')), s)
         else
           (let s1 = s\<lparr>subscriptions := (subscriptions s)[t := (listener, False)]\<rparr>;
                s2 = ensureCanMutateNextListeners s1;
                index = indexOf (arrays s2 ! nextListeners s2) listener;
                s3 = s2\<lparr>arrays := (arrays s2)[nextListeners s2 :=
                                        splice (arrays s2 ! nextListeners s2) index 1]\<rparr>
            in (Returned (), s3)))"

text \<open>
A call whose value is not used: only whether it returned or threw is kept.
\<close>

definition discard :: "'a completion \<Rightarrow> unit completion" where
  "discard c = (case c of Returned _ \<Rightarrow> Returned () | Thrown e \<Rightarrow> Thrown e)"

text \<open>
  The operations that call back into the program, with fuel: \<open>None\<close> is a run that
  needs more steps than the fuel given (a listener that dispatches forever never
  returns). \<open>exec\<close> runs the body of a callback and \<open>step\<close> one command of it;
  \<open>call\<close> is the call of a function value, which is a \<open>TypeError\<close> when the value
  is not a function; \<open>notify\<close> is the loop of \<open>dispatch\<close> over the array
  \<open>listeners\<close>, from index \<open>i\<close>, reading the array's length and its \<open>i\<close>-th
  element from the heap at every iteration. \<open>dispatch\<close> and \<open>notify\<close> also return
  the listeners that this loop itself called, in order of the calls (the listeners called
  by a dispatch nested inside a listener belong to that dispatch's list); nothing in the
  model reads that list.
\<close>

function (sequential) exec :: "program \<Rightarrow> nat \<Rightarrow> cmd list \<Rightarrow> store \<Rightarrow> (unit completion \<times> store) option"
and step :: "program \<Rightarrow> nat \<Rightarrow> cmd \<Rightarrow> store \<Rightarrow> (unit completion \<times> store) option"
and call :: "program \<Rightarrow> nat \<Rightarrow> jsval \<Rightarrow> jsval \<Rightarrow> jsval \<Rightarrow> store \<Rightarrow> (jsval completion \<times> store) option"
and dispatch :: "program \<Rightarrow> nat \<Rightarrow> jsval \<Rightarrow> store \<Rightarrow> (jsval completion \<times> store \<times> jsval list) option"
and notify :: "program \<Rightarrow> nat \<Rightarrow> nat \<Rightarrow> nat \<Rightarrow> store \<Rightarrow> (unit completion \<times> store \<times> jsval list) option"
and replaceReducer :: "program \<Rightarrow> nat \<Rightarrow> jsval \<Rightarrow> store \<Rightarrow> (unit completion \<times> store) option"
where
  "exec P 0 cs s = None"
| "exec P (Suc n) [] s = Some (Returned (), s)"
| "exec P (Suc n) (c # cs) s =
     (case step P n c s of
        None \<Rightarrow> None
      | Some (Thrown e, s1) \<Rightarrow> Some (Thrown e, s1)
      | Some (Returned _, s1) \<Rightarrow> exec P n cs s1)"

| "step P 0 c s = None"
| "step P (Suc n) (Dispatch action) s =
     (case dispatch P n action s of
        None \<Rightarrow> None
      | Some (r, s1, _) \<Rightarrow> Some (discard r, s1))"
| "step P (Suc n) (Subscribe listener) s =
     (case subscribe listener s of (r, s1) \<Rightarrow> Some (discard r, s1))"
| "step P (Suc n) (Unsubscribe t) s =
     (if t < length (subscriptions s) then Some (unsubscribe t s)
      else Some (Thrown (TypeError ''unsubscribe is not a function''), s))"
| "step P (Suc n) GetState s =
     (case getState s of (r, s1) \<Rightarrow> Some (discard r, s1))"
| "step P (Suc n) (ReplaceReducer nextReducer) s = replaceReducer P n nextReducer s"
| "step P (Suc n) (Throw e) s = Some (Thrown e, s)"
| "step P (Suc n) (Log m) s = Some (Returned (), s\<lparr>log := log s @ [m]\<rparr>)"
| "step P (Suc n) (Try cs) s =
     (case exec P n cs s of
        None \<Rightarrow> None
      | Some (_, s1) \<Rightarrow> Some (Returned (), s1))"
| "step P (Suc n) (IfState p cs1 cs2) s =
     (case getState s of
        (Thrown e, s1) \<Rightarrow> Some (Thrown e, s1)
      | (Returned v, s1) \<Rightarrow> exec P n (if p v then cs1 else cs2) s1)"

| "call P 0 f x y s = None"
| "call P (Suc n) f x y s =
     (case f of
        Func k \<Rightarrow>
          (case exec P n (body (P k)) s of
             None \<Rightarrow> None
           | Some (Thrown e, s1) \<Rightarrow> Some (Thrown e, s1)
           | Some (Returned _, s1) \<Rightarrow>
               (case result (P k) x y of
                  Inl e \<Rightarrow> Some (Thrown e, s1)
                | Inr v \<Rightarrow> Some (Returned v, s1)))
      | _ \<Rightarrow> Some (Thrown (TypeError ''not a function''), s))"

| "dispatch P 0 action s = None"
| "dispatch P (Suc n) action s =
     (if \<not> isPlainObject action
      then Some (Thrown (Error (''Actions must be plain objects. '' @
                                ''Use custom middleware for async actions.'')), s, [])
      else if getProp action ''type'' = Undefined
      then Some (Thrown (Error (''Actions may not have an undefined '' @ [CHR 0x22] @ ''type'' @ [CHR 0x22] @
                                '' property. Have you misspelled a constant?'')), s, [])
      else if isDispatching s
      then Some (Thrown (Error ''Reducers may not dispatch actions.''), s, [])
      else
        (case call P n (currentReducer s) (currentState s) action (s\<lparr>isDispatching := True\<rparr>) of
           None \<Rightarrow> None
         | Some (Thrown e, s1) \<Rightarrow> Some (Thrown e, s1\<lparr>isDispatching := False\<rparr>, [])
         | Some (Returned v, s1) \<Rightarrow>
             (let s2 = s1\<lparr>currentState := v, isDispatching := False\<rparr>;
                  s3 = s2\<lparr>currentListeners := nextListeners s2\<rparr>;
                  listeners = currentListeners s3
              in case notify P n listeners 0 s3 of
                   None \<Rightarrow> None
                 | Some (Thrown e, s4, called) \<Rightarrow> Some (Thrown e, s4, called)
                 | Some (Returned _, s4, called) \<Rightarrow> Some (Returned action, s4, called))))"

| "notify P 0 listeners i s = None"
| "notify P (Suc n) listeners i s =
     (if i < length (arrays s ! listeners)
      then
        (let listener = arrays s ! listeners ! i
         in case call P n listener Undefined Undefined s of
              None \<Rightarrow> None
            | Some (Thrown e, s1) \<Rightarrow> Some (Thrown e, s1, [listener])
            | Some (Returned _, s1) \<Rightarrow>
                (case notify P n listeners (i + 1) s1 of
                   None \<Rightarrow> None
                 | Some (r, s2, called) \<Rightarrow> Some (r, s2, listener # called)))
      else Some (Returned (), s, []))"

| "replaceReducer P 0 nextReducer s = None"
| "replaceReducer P (Suc n) nextReducer s =
     (if \<not> isFunction nextReducer
      then Some (Thrown (Error ''Expected the nextReducer to be a function.''), s)
      else
        (case dispatch P n (Obj [(''type'', ActionTypes_REPLACE)]) (s\<lparr>currentReducer := nextReducer\<rparr>) of
           None \<Rightarrow> None
         | Some (r, s1, _) \<Rightarrow> Some (discard r, s1)))"
  by pat_completeness auto

termination
  by (relation "measure (\<lambda>x. case x of
        Inl (Inl (P, n, _)) \<Rightarrow> n
      | Inl (Inr (Inl (P, n, _))) \<Rightarrow> n
      | Inl (Inr (Inr (P, n, _))) \<Rightarrow> n
      | Inr (Inl (P, n, _)) \<Rightarrow> n
      | Inr (Inr (Inl (P, n, _))) \<Rightarrow> n
      | Inr (Inr (Inr (P, n, _))) \<Rightarrow> n)") simp_all

text \<open>
  What \<open>createStore\<close> gives: a store; or the store that
  \<open>enhancer(createStore)(reducer, preloadedState)\<close> returns, construction being
  handed to the enhancer; or an error.
\<close>

datatype creation = Store store | Enhanced jsval jsval jsval | Failed error

text \<open>
The variables of a new store, before the "init" action is dispatched.
\<close>

definition initialStore :: "jsval \<Rightarrow> jsval \<Rightarrow> store" where
  "initialStore reducer preloadedState =
     \<lparr>currentReducer = reducer, currentState = preloadedState,
      currentListeners = 0, nextListeners = 0, isDispatching = False,
      arrays = [[]], subscriptions = [], log = []\<rparr>"

text \<open>
  \<open>createStore(reducer, preloadedState, enhancer)\<close>; an argument left out is
  \<open>undefined\<close>. The observable adapter is not modelled.
\<close>

definition createStore :: "program \<Rightarrow> nat \<Rightarrow> jsval \<Rightarrow> jsval \<Rightarrow> jsval \<Rightarrow> creation option" where
  "createStore P n reducer preloadedState0 enhancer0 =
     (let shift = (isFunction preloadedState0 \<and> enhancer0 = Undefined);
          enhancer = (if shift then preloadedState0 else enhancer0);
          preloadedState = (if shift then Undefined else preloadedState0)
      in if enhancer \<noteq> Undefined
         then (if \<not> isFunction enhancer
               then Some (Failed (Error ''Expected the enhancer to be a function.''))
               else Some (Enhanced enhancer reducer preloadedState))
         else if \<not> isFunction reducer
         then Some (Failed (Error ''Expected the reducer to be a function.''))
         else (case dispatch P n (Obj [(''type'', ActionTypes_INIT)]) (initialStore reducer preloadedState) of
                 None \<Rightarrow> None
               | Some (Thrown e, s, _) \<Rightarrow> Some (Failed e)
               | Some (Returned _, s, _) \<Rightarrow> Some (Store s)))"

section \<open>compose and applyMiddleware\<close>

text \<open>
  \<open>compose(...funcs)\<close>. \<open>reduce\<close> without an initial value starts from the first
  element and folds the others in from the left. The functions of one list have one
  type here, and \<open>(...args)\<close> is its single argument.
\<close>

fun compose :: "('a \<Rightarrow> 'a) list \<Rightarrow> 'a \<Rightarrow> 'a" where
  "compose [] = (\<lambda>arg. arg)"
| "compose [f] = f"
| "compose (f # g # funcs) = foldl (\<lambda>a b. (\<lambda>args. a (b args))) f (g # funcs)"

text \<open>
  A dispatch function: the store's own, or one wrapped by middleware. A middleware takes
  the API object and returns a function from the next dispatch function to the wrapped
  one. It is applied to the API object without effect on the store: a middleware that
  calls \<open>dispatch\<close> while it is being constructed, which the placeholder of
  \<open>applyMiddleware\<close> answers with an error, is outside the model.
\<close>

type_synonym dispatchFn = "jsval \<Rightarrow> store \<Rightarrow> (jsval completion \<times> store) option"

record middlewareAPI =
  api_getState :: "store \<Rightarrow> jsval completion \<times> store"
  api_dispatch :: dispatchFn

type_synonym middleware = "middlewareAPI \<Rightarrow> dispatchFn \<Rightarrow> dispatchFn"

text \<open>
The object that \<open>createStore\<close> returns: the operations of one store.
\<close>

record storeObject =
  obj_dispatch :: dispatchFn
  obj_subscribe :: "jsval \<Rightarrow> store \<Rightarrow> nat completion \<times> store"
  obj_getState :: "store \<Rightarrow> jsval completion \<times> store"
  obj_replaceReducer :: "jsval \<Rightarrow> store \<Rightarrow> (unit completion \<times> store) option"

definition storeOf :: "program \<Rightarrow> nat \<Rightarrow> storeObject" where
  "storeOf P n =
     \<lparr>obj_dispatch = (\<lambda>action s. case dispatch P n action s of
                                    None \<Rightarrow> None
                                  | Some (r, s1, called) \<Rightarrow> Some (r, s1)),
      obj_subscribe = subscribe,
      obj_getState = getState,
      obj_replaceReducer = replaceReducer P n\<rparr>"

text \<open>
  The variable \<open>dispatch\<close> of \<open>applyMiddleware\<close> once the chain is composed.
  \<open>middlewareAPI.dispatch\<close> reads that variable when it is called, so the composed
  function refers to itself; \<open>k\<close> bounds how many times a call follows that
  reference, and \<open>None\<close> is a run that needs more.
\<close>

fun enhancedDispatch :: "middleware list \<Rightarrow> storeObject \<Rightarrow> nat \<Rightarrow> dispatchFn" where
  "enhancedDispatch middlewares store 0 = (\<lambda>action s. None)"
| "enhancedDispatch middlewares store (Suc k) =
     (let middlewareAPI = \<lparr>api_getState = obj_getState store,
                            api_dispatch = enhancedDispatch middlewares store k\<rparr>;
          chain = map (\<lambda>middleware. middleware middlewareAPI) middlewares
      in compose chain (obj_dispatch store))"

text \<open>
  \<open>applyMiddleware(...middlewares)(createStore)(...args)\<close>: the store that
  \<open>createStore\<close> builds, with \<open>dispatch\<close> replaced.
\<close>

definition applyMiddleware ::
  "middleware list \<Rightarrow> nat \<Rightarrow> ('args \<Rightarrow> storeObject) \<Rightarrow> 'args \<Rightarrow> storeObject" where
  "applyMiddleware middlewares k create args =
     (let store = create args;
          dispatch = enhancedDispatch middlewares store k
      in store\<lparr>obj_dispatch := dispatch\<rparr>)"

section \<open>Predicates on stores\<close>

text \<open>What a reducer can do to the store while the Dispatch Gate is set: replace the
  reducer and write to the log; every other variable is as before.\<close>

definition gateRun :: "store \<Rightarrow> store \<Rightarrow> bool" where
  "gateRun s s' = (s' = s\<lparr>currentReducer := currentReducer s', log := log s'\<rparr>)"

text \<open>An idle store (Dispatch Gate clear) satisfying \<open>J\<close>.\<close>

definition idle :: "(store \<Rightarrow> bool) \<Rightarrow> store \<Rightarrow> bool" where
  "idle J s = (\<not> isDispatching s \<and> J s)"

text \<open>
Both array references point into the heap.
\<close>

definition wf :: "store \<Rightarrow> bool" where
  "wf s = (currentListeners s < length (arrays s) \<and> nextListeners s < length (arrays s))"

text \<open>
  The array at address \<open>a\<close> holds \<open>xs\<close> and can no longer be written: it is not
  the working array, or it is also the committed one, so that
  \<open>ensureCanMutateNextListeners\<close> copies it before any write.
\<close>

definition frozen :: "nat \<Rightarrow> jsval list \<Rightarrow> store \<Rightarrow> bool" where
  "frozen a xs s =
     (wf s \<and> a < length (arrays s) \<and> arrays s ! a = xs \<and>
      (nextListeners s \<noteq> a \<or> currentListeners s = a))"

text \<open>
  The working list holds exactly the listeners of the closures that are still
  subscribed, as many times as they are subscribed. \<open>createStore\<close> establishes this
  and every operation keeps it.
\<close>

definition registered :: "store \<Rightarrow> bool" where
  "registered s =
     (wf s \<and> mset (arrays s ! nextListeners s) = mset (map fst (filter snd (subscriptions s))))"

text \<open>
  Commands that call neither \<open>dispatch\<close> nor \<open>replaceReducer\<close>, and listeners whose
  body consists of such commands: they leave \<open>currentState\<close> alone.
\<close>

fun quiet :: "cmd \<Rightarrow> bool" where
  "quiet (Dispatch a) = False"
| "quiet (ReplaceReducer r) = False"
| "quiet (Try cs) = list_all quiet cs"
| "quiet (IfState p cs1 cs2) = (list_all quiet cs1 \<and> list_all quiet cs2)"
| "quiet c = True"

definition quietListener :: "program \<Rightarrow> jsval \<Rightarrow> bool" where
  "quietListener P l = (case l of Func k \<Rightarrow> list_all quiet (body (P k)) | _ \<Rightarrow> True)"

text \<open>
  The store in which the notification phase of a dispatch begins: the reducer, called on
  \<open>s\<close> with the gate set, returned \<open>v\<close> and left \<open>s1\<close>; \<open>v\<close> is
  assigned to \<open>currentState\<close>, the gate is cleared, and the working array becomes the
  committed one.
\<close>

definition committed :: "store \<Rightarrow> jsval \<Rightarrow> store \<Rightarrow> store" where
  "committed s v s1 = s1\<lparr>currentState := v, isDispatching := False, currentListeners := nextListeners s\<rparr>"

text \<open>
  \<open>runs P s u\<close>: the store \<open>u\<close> is reached from \<open>s\<close> by commands that ran to
  completion, one after the other. Between two store calls of listeners or of the code
  around a dispatch nothing else writes to the store, so this is how the store gets from
  one call to a later one.
\<close>

inductive runs :: "program \<Rightarrow> store \<Rightarrow> store \<Rightarrow> bool" for P :: program where
  here: "runs P s s"
| after_step: "runs P s s1 \<Longrightarrow> step P n c s1 = Some (r, s2) \<Longrightarrow> runs P s s2"

text \<open>
The \<open>t\<close>-th closure exists and is the \<open>unsubscribe\<close> of listener \<open>l\<close>.
\<close>

definition closureOf :: "nat \<Rightarrow> jsval \<Rightarrow> store \<Rightarrow> bool" where
  "closureOf t l s = (t < length (subscriptions s) \<and> fst (subscriptions s ! t) = l)"

section \<open>The notification phase that the spec describes\<close>

text \<open>
  The spec's words for the notification phase: "synchronously invoke every listener in
  that committed snapshot, in registration order", the snapshot being a list of
  listeners, not an array in the heap. The phase ends at the first listener that throws.
  The list returned holds a listener exactly when this function has called it.
\<close>

fun invokeSnapshot :: "program \<Rightarrow> nat \<Rightarrow> jsval list \<Rightarrow> store \<Rightarrow> (unit completion \<times> store \<times> jsval list) option" where
  "invokeSnapshot P 0 ls s = None"
| "invokeSnapshot P (Suc n) [] s = Some (Returned (), s, [])"
| "invokeSnapshot P (Suc n) (listener # ls) s =
     (case call P n listener Undefined Undefined s of
        None \<Rightarrow> None
      | Some (Thrown e, s1) \<Rightarrow> Some (Thrown e, s1, [listener])
      | Some (Returned _, s1) \<Rightarrow>
          (case invokeSnapshot P n ls s1 of
             None \<Rightarrow> None
           | Some (r, s2, called) \<Rightarrow> Some (r, s2, listener # called)))"

text \<open>
  The same phase over the snapshot \<open>ahead @ l # behind\<close>, with the call of \<open>l\<close>
  written out: the listeners ahead of \<open>l\<close> are called; if all of them return, \<open>l\<close>
  is called in the store they leave; if it returns, the phase goes on with the listeners
  behind it.
\<close>

definition invokeThrough :: "program \<Rightarrow> nat \<Rightarrow> jsval list \<Rightarrow> jsval \<Rightarrow> jsval list \<Rightarrow> store \<Rightarrow> (unit completion \<times> store \<times> jsval list) option" where
  "invokeThrough P n ahead l behind s =
     (case invokeSnapshot P n ahead s of
        None \<Rightarrow> None
      | Some (Thrown e, s1, called) \<Rightarrow> Some (Thrown e, s1, called)
      | Some (Returned _, s1, called) \<Rightarrow>
          (case call P (n - Suc (length ahead)) l Undefined Undefined s1 of
             None \<Rightarrow> None
           | Some (Thrown e, s2) \<Rightarrow> Some (Thrown e, s2, called @ [l])
           | Some (Returned _, s2) \<Rightarrow>
               (case invokeSnapshot P (n - Suc (length ahead)) behind s2 of
                  None \<Rightarrow> None
                | Some (r, s3, called') \<Rightarrow> Some (r, s3, called @ l # called'))))"

text \<open>
\<open>dispatch\<close> returns the action when the phase has returned.
\<close>

definition returning :: "jsval \<Rightarrow> (unit completion \<times> store \<times> jsval list) option \<Rightarrow> (jsval completion \<times> store \<times> jsval list) option" where
  "returning action phase =
     (case phase of
        None \<Rightarrow> None
      | Some (Thrown e, s, called) \<Rightarrow> Some (Thrown e, s, called)
      | Some (Returned _, s, called) \<Rightarrow> Some (Returned action, s, called))"

section \<open>The composition that the spec describes\<close>

text \<open>
  The spec's words for \<open>compose\<close> on unary functions:
  \<open>f1(f2(...fn(x)...))\<close>.
\<close>

fun rightToLeft :: "('a \<Rightarrow> 'a) list \<Rightarrow> 'a \<Rightarrow> 'a" where
  "rightToLeft [] x = x"
| "rightToLeft (f # fs) x = f (rightToLeft fs x)"

section \<open>Example programs and stores\<close>

text \<open>
  Reducers: one that counts the actions it has seen, one that throws on the action
  \<open>{type: 'boom'}\<close>, and \<open>(state = d, action) => state\<close>, whose default \<open>d\<close>
  applies when the state passed is \<open>undefined\<close>.
\<close>

definition counter :: "jsval \<Rightarrow> jsval \<Rightarrow> error + jsval" where
  "counter state action = Inr (case state of Num i \<Rightarrow> Num (i + 1) | _ \<Rightarrow> Num 0)"

definition failing :: "jsval \<Rightarrow> jsval \<Rightarrow> error + jsval" where
  "failing state action =
     (if getProp action ''type'' = Str ''boom'' then Inl (Error ''boom'') else Inr state)"

definition defaulting :: "jsval \<Rightarrow> jsval \<Rightarrow> jsval \<Rightarrow> error + jsval" where
  "defaulting d state action = Inr (if state = Undefined then d else state)"

text \<open>
A reducer that flips a boolean state.
\<close>

definition toggle :: "jsval \<Rightarrow> jsval \<Rightarrow> error + jsval" where
  "toggle state action = Inr (case state of Bool b \<Rightarrow> Bool (\<not> b) | _ \<Rightarrow> Bool False)"

text \<open>The action \<open>{type: ty}\<close>.\<close>

definition plainAction :: "string \<Rightarrow> jsval" where
  "plainAction ty = Obj [(''type'', Str ty)]"

text \<open>
  A function table. 0, 7, 10, 11 and 15 are reducers without store calls; 5, 6 and 12
  are reducers that call \<open>dispatch\<close>; 9 is a reducer that calls an
  \<open>unsubscribe\<close> closure; the others are listeners.
\<close>

definition demo :: program where
  "demo k =
     (if k = 0 then \<lparr>body = [], result = counter\<rparr>
      else if k = 1 then \<lparr>body = [Subscribe (Func 2)], result = (\<lambda>x y. Inr Undefined)\<rparr>
      else if k = 2 then \<lparr>body = [Log ''B''], result = (\<lambda>x y. Inr Undefined)\<rparr>
      else if k = 3 then \<lparr>body = [Unsubscribe 1], result = (\<lambda>x y. Inr Undefined)\<rparr>
      else if k = 4 then \<lparr>body = [Log ''C''], result = (\<lambda>x y. Inr Undefined)\<rparr>
      else if k = 5 then \<lparr>body = [Try [Dispatch (Obj [(''type'', Str ''inner'')])]], result = counter\<rparr>
      else if k = 6 then \<lparr>body = [Dispatch (Num 42)], result = counter\<rparr>
      else if k = 7 then \<lparr>body = [], result = failing\<rparr>
      else if k = 8 then \<lparr>body = [Throw (Error ''listener failed'')], result = (\<lambda>x y. Inr Undefined)\<rparr>
      else if k = 9 then \<lparr>body = [Unsubscribe 0], result = counter\<rparr>
      else if k = 10 then \<lparr>body = [], result = defaulting (Obj [(''x'', Num 1)])\<rparr>
      else if k = 11 then \<lparr>body = [], result = defaulting (Obj [(''y'', Num 2)])\<rparr>
      else if k = 12 then \<lparr>body = [Dispatch (Obj [(''type'', Str ''inner'')])], result = counter\<rparr>
      else if k = 13 then \<lparr>body = [Unsubscribe 2], result = (\<lambda>x y. Inr Undefined)\<rparr>
      else if k = 14 then \<lparr>body = [Subscribe (Func 4), Subscribe (Func 2)], result = (\<lambda>x y. Inr Undefined)\<rparr>
      else if k = 15 then \<lparr>body = [], result = toggle\<rparr>
      else if k = 16 then \<lparr>body = [IfState (\<lambda>v. v = Bool True) [Try [Dispatch (Obj [(''type'', Str ''back'')])]] []],
                            result = (\<lambda>x y. Inr Undefined)\<rparr>
      else if k = 17 then \<lparr>body = [Subscribe (Func 2), Unsubscribe 1], result = (\<lambda>x y. Inr Undefined)\<rparr>
      else \<lparr>body = [], result = (\<lambda>x y. Inr Undefined)\<rparr>)"

text \<open>
  A middleware that writes \<open>name enter\<close> to the log, calls \<open>next\<close>, and writes
  \<open>name exit\<close> when \<open>next\<close> has returned.
\<close>

definition logging :: "string \<Rightarrow> middleware" where
  "logging name api next action s =
     (case next action (s\<lparr>log := log s @ [name @ '' enter'']\<rparr>) of
        None \<Rightarrow> None
      | Some (Thrown e, s1) \<Rightarrow> Some (Thrown e, s1)
      | Some (Returned r, s1) \<Rightarrow> Some (Returned r, s1\<lparr>log := log s1 @ [name @ '' exit'']\<rparr>))"

text \<open>
Stores reached from \<open>initialStore\<close> by calls of \<open>subscribe\<close>, and the stores
  that the runs below leave.
\<close>

definition storeC1w :: store where
  "storeC1w = snd (subscribe (Func 14) (initialStore (Func 0) (Num 0)))"

definition storeC1w_during :: store where
  "storeC1w_during =
     \<lparr>currentReducer = Func 0, currentState = Num 1, currentListeners = 1, nextListeners = 2,
      isDispatching = False, arrays = [[], [Func 14], [Func 14, Func 4]],
      subscriptions = [(Func 14, True), (Func 4, True)], log = []\<rparr>"

definition storeC1w_after :: store where
  "storeC1w_after =
     \<lparr>currentReducer = Func 0, currentState = Num 1, currentListeners = 1, nextListeners = 2,
      isDispatching = False, arrays = [[], [Func 14], [Func 14, Func 4, Func 2]],
      subscriptions = [(Func 14, True), (Func 4, True), (Func 2, True)], log = []\<rparr>"

definition storeC2 :: store where
  "storeC2 = snd (subscribe (Func 4) (snd (subscribe (Func 3) (initialStore (Func 0) (Num 0)))))"

definition storeC2_after :: store where
  "storeC2_after =
     \<lparr>currentReducer = Func 0, currentState = Num 1, currentListeners = 1, nextListeners = 2,
      isDispatching = False, arrays = [[], [Func 3, Func 4], [Func 3]],
      subscriptions = [(Func 3, True), (Func 4, False)], log = [''C'']\<rparr>"

definition storeC5 :: store where
  "storeC5 = snd (subscribe (Func 2) (initialStore (Func 0) (Num 0)))"

definition storeC5_after :: store where
  "storeC5_after =
     \<lparr>currentReducer = Func 0, currentState = Num 1, currentListeners = 1, nextListeners = 1,
      isDispatching = False, arrays = [[], [Func 2]], subscriptions = [(Func 2, True)],
      log = [''M1 enter'', ''M2 enter'', ''B'', ''M2 exit'', ''M1 exit'']\<rparr>"

definition storeC8 :: store where
  "storeC8 = initialStore (Func 10) (Obj [(''x'', Num 1)])"

definition storeC9 :: store where
  "storeC9 = snd (subscribe (Func 2) (initialStore (Func 0) (Num 0)))"

definition storeC9_after :: store where
  "storeC9_after =
     \<lparr>currentReducer = Func 0, currentState = Num 0, currentListeners = 0, nextListeners = 1,
      isDispatching = False, arrays = [[], []], subscriptions = [(Func 2, False)], log = []\<rparr>"

definition storeC10 :: store where
  "storeC10 = snd (subscribe (Func 2) (snd (subscribe (Func 8) (initialStore (Func 0) (Num 0)))))"

definition storeC1x :: store where
  "storeC1x = snd (subscribe (Func 8) (snd (subscribe (Func 1) (initialStore (Func 0) (Num 0)))))"

definition storeC1x_after :: store where
  "storeC1x_after =
     \<lparr>currentReducer = Func 0, currentState = Num 1, currentListeners = 1, nextListeners = 2,
      isDispatching = False, arrays = [[], [Func 1, Func 8], [Func 1, Func 8, Func 2]],
      subscriptions = [(Func 1, True), (Func 8, True), (Func 2, True)], log = []\<rparr>"

definition storeC1y :: store where
  "storeC1y = snd (subscribe (Func 17) (initialStore (Func 0) (Num 0)))"

definition storeC1y_after :: store where
  "storeC1y_after =
     \<lparr>currentReducer = Func 0, currentState = Num 1, currentListeners = 1, nextListeners = 2,
      isDispatching = False, arrays = [[], [Func 17], [Func 17]],
      subscriptions = [(Func 17, True), (Func 2, False)], log = []\<rparr>"

definition storeC1z :: store where
  "storeC1z = snd (subscribe (Func 1) (initialStore (Func 7) (Num 0)))"

definition storeC1z_after :: store where
  "storeC1z_after =
     \<lparr>currentReducer = Func 7, currentState = Num 0, currentListeners = 1, nextListeners = 2,
      isDispatching = False, arrays = [[], [Func 1], [Func 1, Func 2]],
      subscriptions = [(Func 1, True), (Func 2, True)], log = []\<rparr>"

definition storeC2x :: store where
  "storeC2x = snd (subscribe (Func 4) (snd (subscribe (Func 8) (snd (subscribe (Func 13) (initialStore (Func 0) (Num 0)))))))"

definition storeC10x :: store where
  "storeC10x = snd (subscribe (Func 8) (snd (subscribe (Func 16) (initialStore (Func 15) (Bool False)))))"

section \<open>Arrays\<close>

lemma indexOf_ge: "- 1 \<le> indexOf xs x"
  by (induction xs) (auto simp: Let_def)

lemma indexOf_notin: "x \<notin> set xs \<Longrightarrow> indexOf xs x = - 1"
  by (induction xs) (auto simp: Let_def)

lemma indexOf_in: "x \<in> set xs \<Longrightarrow> 0 \<le> indexOf xs x"
proof (induction xs)
  case Nil
  then show ?case by simp
next
  case (Cons y ys)
  then show ?case using indexOf_ge [of ys x] by (auto simp: Let_def)
qed

lemma splice_one: "0 \<le> i \<Longrightarrow> splice xs i 1 = take (nat i) xs @ drop (Suc (nat i)) xs"
  by (auto simp: splice_def Let_def min_def max_def nat_add_distrib)

lemma splice_Cons: "0 \<le> i \<Longrightarrow> splice (y # ys) (i + 1) 1 = y # splice ys i 1"
  by (simp add: splice_one nat_add_distrib)

lemma splice_indexOf: "x \<in> set xs \<Longrightarrow> splice xs (indexOf xs x) 1 = remove1 x xs"
proof (induction xs)
  case Nil
  then show ?case by simp
next
  case (Cons y ys)
  show ?case
  proof (cases "y = x")
    case True
    then show ?thesis by (simp add: splice_one)
  next
    case False
    with Cons.prems have "x \<in> set ys" by simp
    then have "0 \<le> indexOf ys x" and "splice ys (indexOf ys x) 1 = remove1 x ys"
      using Cons.IH indexOf_in by auto
    with False show ?thesis by (simp add: Let_def splice_Cons)
  qed
qed

lemma filter_unsubscribed:
  "t < length xs \<Longrightarrow> snd (xs ! t) \<Longrightarrow>
     mset (map fst (filter snd (xs[t := (fst (xs ! t), False)]))) =
     mset (map fst (filter snd xs)) - {#fst (xs ! t)#}"
proof (induction xs arbitrary: t)
  case Nil
  then show ?case by simp
next
  case (Cons p ps)
  show ?case
  proof (cases t)
    case 0
    with Cons.prems show ?thesis by simp
  next
    case (Suc k)
    with Cons.prems have k: "k < length ps" "snd (ps ! k)" by simp_all
    then have "fst (ps ! k) \<in> fst ` {p \<in> set ps. snd p}"
      by (auto intro!: image_eqI [where x = "ps ! k"])
    then have "fst (ps ! k) \<in># mset (map fst (filter snd ps))" by simp
    with Cons.IH [OF k] Suc show ?thesis by simp
  qed
qed

lemma list_all_take: "list_all Q xs \<Longrightarrow> list_all Q (take k xs)"
  by (simp add: list_all_iff) (meson in_set_takeD)

lemma foldl_compose:
  "foldl (\<lambda>a b. (\<lambda>args. a (b args))) f fs = (\<lambda>x. f (rightToLeft fs x))"
  by (induction fs arbitrary: f) simp_all

section \<open>More fuel gives the same run\<close>

text \<open>
  A run that ends with the fuel given ends in the same way with any more: \<open>None\<close>
  stands for nothing but a lack of fuel.
\<close>

lemma fuel_all:
  "\<forall>s.
     (\<forall>cs x. exec P n cs s = Some x \<longrightarrow> exec P (Suc n) cs s = Some x) \<and>
     (\<forall>c x. step P n c s = Some x \<longrightarrow> step P (Suc n) c s = Some x) \<and>
     (\<forall>f a b x. call P n f a b s = Some x \<longrightarrow> call P (Suc n) f a b s = Some x) \<and>
     (\<forall>a x. dispatch P n a s = Some x \<longrightarrow> dispatch P (Suc n) a s = Some x) \<and>
     (\<forall>ls i x. notify P n ls i s = Some x \<longrightarrow> notify P (Suc n) ls i s = Some x) \<and>
     (\<forall>nr x. replaceReducer P n nr s = Some x \<longrightarrow> replaceReducer P (Suc n) nr s = Some x)"
proof (induction n)
  case 0
  then show ?case by simp
next
  case (Suc n)
  note rs = exec.simps step.simps call.simps dispatch.simps notify.simps replaceReducer.simps
  have ihE: "\<And>s cs x. exec P n cs s = Some x \<Longrightarrow> exec P (Suc n) cs s = Some x"
    and ihS: "\<And>s c x. step P n c s = Some x \<Longrightarrow> step P (Suc n) c s = Some x"
    and ihC: "\<And>s f a b x. call P n f a b s = Some x \<Longrightarrow> call P (Suc n) f a b s = Some x"
    and ihD: "\<And>s a x. dispatch P n a s = Some x \<Longrightarrow> dispatch P (Suc n) a s = Some x"
    and ihN: "\<And>s ls i x. notify P n ls i s = Some x \<Longrightarrow> notify P (Suc n) ls i s = Some x"
    and ihR: "\<And>s nr x. replaceReducer P n nr s = Some x \<Longrightarrow> replaceReducer P (Suc n) nr s = Some x"
    using Suc.IH by metis+
  show ?case
  proof (intro allI impI conjI)
    fix s cs x
    assume e: "exec P (Suc n) cs s = Some x"
    show "exec P (Suc (Suc n)) cs s = Some x"
    proof (cases cs)
      case Nil
      with e show ?thesis by simp
    next
      case (Cons c cs')
      with e obtain r1 s1 where st1: "step P n c s = Some (r1, s1)"
        by (auto split: option.splits)
      note st2 = ihS [OF st1]
      show ?thesis
      proof (cases r1)
        case (Thrown y)
        from e Cons st1 Thrown have "x = (Thrown y, s1)" by simp
        with Cons st2 Thrown show ?thesis by (subst Cons, subst exec.simps) (simp del: rs)
      next
        case (Returned u)
        with e Cons st1 have "exec P n cs' s1 = Some x" by simp
        from ihE [OF this] Cons st2 Returned show ?thesis
          by (subst Cons, subst exec.simps) (simp del: rs)
      qed
    qed
  next
    fix s c x
    assume e: "step P (Suc n) c s = Some x"
    show "step P (Suc (Suc n)) c s = Some x"
    proof (cases c)
      case (Dispatch a)
      with e obtain y where d: "dispatch P n a s = Some y" by (auto split: option.splits)
      from d e Dispatch have "x = (case y of (r, s1, _) \<Rightarrow> (discard r, s1))"
        by (auto split: prod.splits)
      with ihD [OF d] Dispatch show ?thesis
        by (subst Dispatch, subst step.simps) (simp del: rs split: prod.splits)
    next
      case (ReplaceReducer nr)
      with e have "replaceReducer P n nr s = Some x" by simp
      from ihR [OF this] ReplaceReducer show ?thesis
        by (subst ReplaceReducer, subst step.simps) (simp del: rs)
    next
      case (Try cs)
      with e obtain y where d: "exec P n cs s = Some y" by (auto split: option.splits)
      from d e Try have "x = (Returned (), snd y)" by (auto split: prod.splits)
      with ihE [OF d] Try show ?thesis
        by (subst Try, subst step.simps) (simp del: rs split: prod.splits)
    next
      case (IfState p c1 c2)
      show ?thesis
      proof (cases "isDispatching s")
        case True
        with e IfState show ?thesis by (simp add: getState_def)
      next
        case False
        with e IfState have "exec P n (if p (currentState s) then c1 else c2) s = Some x"
          by (simp add: getState_def)
        from ihE [OF this] False IfState show ?thesis
          by (subst IfState, subst step.simps) (simp del: rs add: getState_def)
      qed
    qed (use e in simp_all)
  next
    fix s f a b x
    assume e: "call P (Suc n) f a b s = Some x"
    show "call P (Suc (Suc n)) f a b s = Some x"
    proof (cases f)
      case (Func k)
      with e obtain y where d: "exec P n (body (P k)) s = Some y" by (auto split: option.splits)
      from e [unfolded call.simps] d Func ihE [OF d] show ?thesis
        by (subst call.simps) (simp del: rs)
    qed (use e in simp_all)
  next
    fix s a x
    assume e: "dispatch P (Suc n) a s = Some x"
    show "dispatch P (Suc (Suc n)) a s = Some x"
    proof (cases "isPlainObject a \<and> getProp a ''type'' \<noteq> Undefined \<and> \<not> isDispatching s")
      case False
      with e show ?thesis by (auto split: if_splits)
    next
      case True
      with e obtain r1 s1 where c1: "call P n (currentReducer s) (currentState s) a (s\<lparr>isDispatching := True\<rparr>) = Some (r1, s1)"
        by (auto split: option.splits)
      note c2 = ihC [OF c1]
      show ?thesis
      proof (cases r1)
        case (Thrown y)
        from e [unfolded dispatch.simps] True c1 c2 Thrown show ?thesis
          by (subst dispatch.simps) (simp del: rs)
      next
        case (Returned v)
        let ?s2 = "s1\<lparr>currentState := v, isDispatching := False\<rparr>"
        let ?s3 = "?s2\<lparr>currentListeners := nextListeners ?s2\<rparr>"
        from e True c1 Returned obtain y where
          n1: "notify P n (currentListeners ?s3) 0 ?s3 = Some y"
          by (auto simp: Let_def split: option.splits)
        from ihN [OF n1] n1 e [unfolded dispatch.simps] True c1 c2 Returned show ?thesis
          by (subst dispatch.simps) (simp del: rs add: Let_def)
      qed
    qed
  next
    fix s ls i x
    assume e: "notify P (Suc n) ls i s = Some x"
    show "notify P (Suc (Suc n)) ls i s = Some x"
    proof (cases "i < length (arrays s ! ls)")
      case False
      with e show ?thesis by simp
    next
      case True
      with e obtain r1 s1 where c1: "call P n (arrays s ! ls ! i) Undefined Undefined s = Some (r1, s1)"
        by (auto simp: Let_def split: option.splits)
      note c2 = ihC [OF c1]
      show ?thesis
      proof (cases r1)
        case (Thrown y)
        from e [unfolded notify.simps] True c1 c2 Thrown show ?thesis
          by (subst notify.simps) (simp del: rs add: Let_def)
      next
        case (Returned v)
        with e True c1 obtain y where n1: "notify P n ls (i + 1) s1 = Some y"
          by (auto simp: Let_def split: option.splits)
        from ihN [OF n1] n1 e [unfolded notify.simps] True c1 c2 Returned show ?thesis
          by (subst notify.simps) (simp del: rs add: Let_def)
      qed
    qed
  next
    fix s nr x
    assume e: "replaceReducer P (Suc n) nr s = Some x"
    show "replaceReducer P (Suc (Suc n)) nr s = Some x"
    proof (cases "isFunction nr")
      case False
      with e show ?thesis by simp
    next
      case True
      with e obtain y where d: "dispatch P n (Obj [(''type'', ActionTypes_REPLACE)]) (s\<lparr>currentReducer := nr\<rparr>) = Some y"
        by (auto split: option.splits)
      from ihD [OF d] d e [unfolded replaceReducer.simps] True show ?thesis
        by (subst replaceReducer.simps) (simp del: rs)
    qed
  qed
qed

lemma dispatch_more_fuel:
  "dispatch P n a s = Some x \<Longrightarrow> n \<le> m \<Longrightarrow> dispatch P m a s = Some x"
proof (induction m)
  case 0
  then show ?case by simp
next
  case (Suc m)
  show ?case
  proof (cases "n = Suc m")
    case True
    with Suc.prems show ?thesis by simp
  next
    case False
    with Suc.prems have "n \<le> m" by simp
    from Suc.IH [OF Suc.prems(1) this] show ?thesis using fuel_all [of P m] by blast
  qed
qed

section \<open>Runs under the Dispatch Gate\<close>

text \<open>
  While the gate is set every operation of the store fails or does nothing, except that
  \<open>replaceReducer\<close> assigns the reducer before its dispatch fails.
\<close>

lemma gateRun_refl: "gateRun s s" by (simp add: gateRun_def)

lemma gateRun_trans: "gateRun s s1 \<Longrightarrow> gateRun s1 s2 \<Longrightarrow> gateRun s s2"
  unfolding gateRun_def
  by (metis (no_types, lifting) store.surjective store.update_convs(1) store.update_convs(8) store.select_convs)

lemma gateRun_gate: "gateRun s s' \<Longrightarrow> isDispatching s' = isDispatching s"
  unfolding gateRun_def by (metis store.select_convs(5) store.surjective store.update_convs(1) store.update_convs(8))

lemma gateRun_fields:
  "gateRun s s' \<Longrightarrow>
     currentState s' = currentState s \<and> currentListeners s' = currentListeners s \<and>
     nextListeners s' = nextListeners s \<and> isDispatching s' = isDispatching s \<and>
     arrays s' = arrays s \<and> subscriptions s' = subscriptions s"
  by (cases s; cases s'; simp add: gateRun_def)

lemma dispatch_gate:
  "isDispatching s \<Longrightarrow> dispatch P n a s = Some (r, s', called) \<Longrightarrow>
     s' = s \<and> called = [] \<and> (\<exists>e. r = Thrown e)"
  by (cases n) (auto split: if_splits)

lemma gate_all:
  "\<forall>s. isDispatching s \<longrightarrow>
     (\<forall>cs r s'. exec P n cs s = Some (r, s') \<longrightarrow> gateRun s s') \<and>
     (\<forall>c r s'. step P n c s = Some (r, s') \<longrightarrow> gateRun s s') \<and>
     (\<forall>f x y r s'. call P n f x y s = Some (r, s') \<longrightarrow> gateRun s s') \<and>
     (\<forall>nr r s'. replaceReducer P n nr s = Some (r, s') \<longrightarrow> gateRun s s')"
proof (induction n)
  case 0
  then show ?case by simp
next
  case (Suc n)
  have ihE: "\<And>s cs r s'. isDispatching s \<Longrightarrow> exec P n cs s = Some (r, s') \<Longrightarrow> gateRun s s'"
    and ihS: "\<And>s c r s'. isDispatching s \<Longrightarrow> step P n c s = Some (r, s') \<Longrightarrow> gateRun s s'"
    and ihR: "\<And>s nr r s'. isDispatching s \<Longrightarrow> replaceReducer P n nr s = Some (r, s') \<Longrightarrow> gateRun s s'"
    using Suc.IH by blast+
  show ?case
  proof (intro allI impI conjI)
    fix s cs r s'
    assume g: "isDispatching s" and e: "exec P (Suc n) cs s = Some (r, s')"
    show "gateRun s s'"
    proof (cases cs)
      case Nil
      with e show ?thesis by (simp add: gateRun_refl)
    next
      case (Cons c cs')
      with e obtain r1 s1 where st: "step P n c s = Some (r1, s1)"
        by (auto split: option.splits)
      have g1: "gateRun s s1" using ihS [OF g st] .
      show ?thesis
      proof (cases r1)
        case (Thrown x)
        with e Cons st g1 show ?thesis by simp
      next
        case (Returned u)
        with e Cons st have "exec P n cs' s1 = Some (r, s')" by simp
        moreover have "isDispatching s1" using g g1 by (simp add: gateRun_gate)
        ultimately show ?thesis using ihE g1 gateRun_trans by blast
      qed
    qed
  next
    fix s c r s'
    assume g: "isDispatching s" and e: "step P (Suc n) c s = Some (r, s')"
    show "gateRun s s'"
    proof (cases c)
      case (Dispatch a)
      with e g show ?thesis
        by (auto split: option.splits dest!: dispatch_gate simp: gateRun_refl)
    next
      case (Subscribe l)
      with e g show ?thesis by (auto simp: subscribe_def gateRun_refl split: if_splits)
    next
      case (Unsubscribe t)
      with e g show ?thesis by (auto simp: unsubscribe_def Let_def gateRun_refl split: if_splits)
    next
      case GetState
      with e g show ?thesis by (auto simp: getState_def gateRun_refl)
    next
      case (ReplaceReducer nr)
      with e g show ?thesis using ihR by simp
    next
      case (Throw x)
      with e show ?thesis by (simp add: gateRun_refl)
    next
      case (Log m)
      with e show ?thesis by (auto simp: gateRun_def)
    next
      case (Try cs)
      with e g show ?thesis using ihE by (auto split: option.splits)
    next
      case (IfState p c1 c2)
      with e g show ?thesis by (auto simp: getState_def gateRun_refl)
    qed
  next
    fix s f x y r s'
    assume g: "isDispatching s" and e: "call P (Suc n) f x y s = Some (r, s')"
    show "gateRun s s'"
    proof (cases f)
      case (Func k)
      with e g show ?thesis using ihE
        by (auto split: option.splits completion.splits sum.splits)
    qed (use e in \<open>auto simp: gateRun_refl\<close>)
  next
    fix s nr r s'
    assume g: "isDispatching s" and e: "replaceReducer P (Suc n) nr s = Some (r, s')"
    show "gateRun s s'"
    proof (cases "isFunction nr")
      case False
      with e show ?thesis by (simp add: gateRun_refl)
    next
      case True
      with e obtain r1 c1 where "dispatch P n (Obj [(''type'', ActionTypes_REPLACE)]) (s\<lparr>currentReducer := nr\<rparr>) = Some (r1, s', c1)"
        by (auto split: option.splits)
      from dispatch_gate [OF _ this] g have "s' = s\<lparr>currentReducer := nr\<rparr>" by simp
      then show ?thesis by (simp add: gateRun_def)
    qed
  qed
qed

lemma call_gate:
  "isDispatching s \<Longrightarrow> call P n f x y s = Some (r, s') \<Longrightarrow> gateRun s s'"
  using gate_all [of P n] by blast

section \<open>Runs from an idle store\<close>

text \<open>
  A property of idle stores that \<open>subscribe\<close> and \<open>unsubscribe\<close> keep, and that does
  not depend on the reducer, the state, the log, the gate or the committed reference, is
  kept by every run that returns or throws.
\<close>

lemma subscribe_gate: "isDispatching (snd (subscribe l s)) = isDispatching s"
  by (simp add: subscribe_def ensureCanMutateNextListeners_def Let_def)

lemma unsubscribe_gate: "isDispatching (snd (unsubscribe t s)) = isDispatching s"
  by (simp add: unsubscribe_def ensureCanMutateNextListeners_def Let_def)

lemma gateRun_J:
  assumes updR: "\<And>s cr. J s \<Longrightarrow> J (s\<lparr>currentReducer := cr\<rparr>)"
    and updL: "\<And>s lg. J s \<Longrightarrow> J (s\<lparr>log := lg\<rparr>)"
  shows "gateRun s s' \<Longrightarrow> J s \<Longrightarrow> J s'"
  unfolding gateRun_def using updR updL by metis

lemma idle_all:
  assumes sub: "\<And>s l. \<not> isDispatching s \<Longrightarrow> J s \<Longrightarrow> J (snd (subscribe l s))"
    and unsub: "\<And>s t. \<not> isDispatching s \<Longrightarrow> J s \<Longrightarrow> t < length (subscriptions s) \<Longrightarrow> J (snd (unsubscribe t s))"
    and updR: "\<And>s cr. J s \<Longrightarrow> J (s\<lparr>currentReducer := cr\<rparr>)"
    and updL: "\<And>s lg. J s \<Longrightarrow> J (s\<lparr>log := lg\<rparr>)"
    and gate: "\<And>s b. J s \<Longrightarrow> J (s\<lparr>isDispatching := b\<rparr>)"
    and st: "\<And>s v. J s \<Longrightarrow> J (s\<lparr>currentState := v\<rparr>)"
    and commit: "\<And>s. J s \<Longrightarrow> J (s\<lparr>currentListeners := nextListeners s\<rparr>)"
  shows "\<forall>s. idle J s \<longrightarrow>
     (\<forall>cs r s'. exec P n cs s = Some (r, s') \<longrightarrow> idle J s') \<and>
     (\<forall>c r s'. step P n c s = Some (r, s') \<longrightarrow> idle J s') \<and>
     (\<forall>f x y r s'. call P n f x y s = Some (r, s') \<longrightarrow> idle J s') \<and>
     (\<forall>a r s' called. dispatch P n a s = Some (r, s', called) \<longrightarrow> idle J s') \<and>
     (\<forall>ls i r s' called. notify P n ls i s = Some (r, s', called) \<longrightarrow> idle J s') \<and>
     (\<forall>nr r s'. replaceReducer P n nr s = Some (r, s') \<longrightarrow> idle J s')"
proof (induction n)
  case 0
  then show ?case by simp
next
  case (Suc n)
  have ihE: "\<And>s cs r s'. idle J s \<Longrightarrow> exec P n cs s = Some (r, s') \<Longrightarrow> idle J s'"
    and ihS: "\<And>s c r s'. idle J s \<Longrightarrow> step P n c s = Some (r, s') \<Longrightarrow> idle J s'"
    and ihC: "\<And>s f x y r s'. idle J s \<Longrightarrow> call P n f x y s = Some (r, s') \<Longrightarrow> idle J s'"
    and ihD: "\<And>s a r s' called. idle J s \<Longrightarrow> dispatch P n a s = Some (r, s', called) \<Longrightarrow> idle J s'"
    and ihN: "\<And>s ls i r s' called. idle J s \<Longrightarrow> notify P n ls i s = Some (r, s', called) \<Longrightarrow> idle J s'"
    and ihR: "\<And>s nr r s'. idle J s \<Longrightarrow> replaceReducer P n nr s = Some (r, s') \<Longrightarrow> idle J s'"
    using Suc.IH by metis+
  show ?case
  proof (intro allI impI conjI)
    fix s cs r s'
    assume i: "idle J s" and e: "exec P (Suc n) cs s = Some (r, s')"
    from i have g: "\<not> isDispatching s" and j: "J s" by (simp_all add: idle_def)
    have "\<not> isDispatching s' \<and> J s'"
    proof (cases cs)
      case Nil
      with e g j show ?thesis by simp
    next
      case (Cons c cs')
      with e obtain r1 s1 where st1: "step P n c s = Some (r1, s1)"
        by (auto split: option.splits)
      have g1: "\<not> isDispatching s1 \<and> J s1" using ihS [OF i st1] by (simp add: idle_def)
      show ?thesis
      proof (cases r1)
        case (Thrown x)
        with e Cons st1 g1 show ?thesis by simp
      next
        case (Returned u)
        with e Cons st1 have "exec P n cs' s1 = Some (r, s')" by simp
        then show ?thesis using ihE [of s1] g1 by (simp add: idle_def)
      qed
    qed
    then show "idle J s'" by (simp add: idle_def)
  next
    fix s c r s'
    assume i: "idle J s" and e: "step P (Suc n) c s = Some (r, s')"
    from i have g: "\<not> isDispatching s" and j: "J s" by (simp_all add: idle_def)
    have "\<not> isDispatching s' \<and> J s'"
    proof (cases c)
      case (Dispatch a)
      with e i show ?thesis using ihD [of s]
        by (auto simp: idle_def split: option.splits)
    next
      case (Subscribe l)
      with e have "s' = snd (subscribe l s)" by (auto split: prod.splits)
      then show ?thesis using g j sub by (simp add: subscribe_gate)
    next
      case (Unsubscribe t)
      show ?thesis
      proof (cases "t < length (subscriptions s)")
        case True
        with e Unsubscribe have "s' = snd (unsubscribe t s)" by (auto split: prod.splits)
        then show ?thesis using g j unsub True by (simp add: unsubscribe_gate)
      next
        case False
        with e Unsubscribe g j show ?thesis by simp
      qed
    next
      case GetState
      with e g j show ?thesis by (auto simp: getState_def)
    next
      case (ReplaceReducer nr)
      with e i show ?thesis using ihR [of s] by (simp add: idle_def)
    next
      case (Throw x)
      with e g j show ?thesis by simp
    next
      case (Log m)
      with e g j show ?thesis using updL [of s "log s @ [m]"] by auto
    next
      case (Try cs)
      with e i show ?thesis using ihE [of s] by (auto simp: idle_def split: option.splits)
    next
      case (IfState p c1 c2)
      with e i g show ?thesis using ihE [of s] by (auto simp: idle_def getState_def)
    qed
    then show "idle J s'" by (simp add: idle_def)
  next
    fix s f x y r s'
    assume i: "idle J s" and e: "call P (Suc n) f x y s = Some (r, s')"
    from i have g: "\<not> isDispatching s" and j: "J s" by (simp_all add: idle_def)
    have "\<not> isDispatching s' \<and> J s'"
    proof (cases f)
      case (Func k)
      with e i show ?thesis using ihE [of s]
        by (auto simp: idle_def split: option.splits completion.splits sum.splits)
    qed (use e g j in auto)
    then show "idle J s'" by (simp add: idle_def)
  next
    fix s a r s' called
    assume i: "idle J s" and e: "dispatch P (Suc n) a s = Some (r, s', called)"
    from i have g: "\<not> isDispatching s" and j: "J s" by (simp_all add: idle_def)
    have "\<not> isDispatching s' \<and> J s'"
    proof (cases "isPlainObject a \<and> getProp a ''type'' \<noteq> Undefined")
      case False
      with e g j show ?thesis by (auto split: if_splits)
    next
      case True
      with e g obtain r1 s1 where c1: "call P n (currentReducer s) (currentState s) a (s\<lparr>isDispatching := True\<rparr>) = Some (r1, s1)"
        by (auto split: option.splits)
      have "gateRun (s\<lparr>isDispatching := True\<rparr>) s1"
        using gate_all [of P n] c1 by auto
      then have j1: "J s1"
        using gateRun_J [of J, OF updR updL] gate [OF j] by blast
      show ?thesis
      proof (cases r1)
        case (Thrown x)
        with e True g c1 have "s' = s1\<lparr>isDispatching := False\<rparr>" by simp
        then show ?thesis using gate [OF j1] by simp
      next
        case (Returned v)
        let ?s2 = "s1\<lparr>currentState := v, isDispatching := False\<rparr>"
        let ?s3 = "?s2\<lparr>currentListeners := nextListeners ?s2\<rparr>"
        from e True g c1 Returned obtain r2 where
          "notify P n (currentListeners ?s3) 0 ?s3 = Some (r2, s', called)"
          by (auto simp: Let_def split: option.splits completion.splits)
        moreover have "J ?s3" using commit [OF gate [OF st [OF j1]]] by simp
        moreover have "\<not> isDispatching ?s3" by simp
        ultimately show ?thesis using ihN [of ?s3] by (simp add: idle_def)
      qed
    qed
    then show "idle J s'" by (simp add: idle_def)
  next
    fix s ls i r s' called
    assume i: "idle J s" and e: "notify P (Suc n) ls i s = Some (r, s', called)"
    from i have g: "\<not> isDispatching s" and j: "J s" by (simp_all add: idle_def)
    have "\<not> isDispatching s' \<and> J s'"
    proof (cases "i < length (arrays s ! ls)")
      case False
      with e g j show ?thesis by simp
    next
      case True
      with e obtain r1 s1 where c1: "call P n (arrays s ! ls ! i) Undefined Undefined s = Some (r1, s1)"
        by (auto simp: Let_def split: option.splits)
      have g1: "\<not> isDispatching s1 \<and> J s1" using ihC [OF i c1] by (simp add: idle_def)
      show ?thesis
      proof (cases r1)
        case (Thrown x)
        with e True c1 g1 show ?thesis by (simp add: Let_def)
      next
        case (Returned v)
        with e True c1 obtain c2 where "notify P n ls (i + 1) s1 = Some (r, s', c2)"
          by (auto simp: Let_def split: option.splits)
        then show ?thesis using ihN [of s1] g1 by (simp add: idle_def)
      qed
    qed
    then show "idle J s'" by (simp add: idle_def)
  next
    fix s nr r s'
    assume i: "idle J s" and e: "replaceReducer P (Suc n) nr s = Some (r, s')"
    from i have g: "\<not> isDispatching s" and j: "J s" by (simp_all add: idle_def)
    have "\<not> isDispatching s' \<and> J s'"
    proof (cases "isFunction nr")
      case False
      with e g j show ?thesis by simp
    next
      case True
      with e obtain r1 c1 where d: "dispatch P n (Obj [(''type'', ActionTypes_REPLACE)]) (s\<lparr>currentReducer := nr\<rparr>) = Some (r1, s', c1)"
        by (auto split: option.splits)
      have "J (s\<lparr>currentReducer := nr\<rparr>)" using updR [OF j] .
      then show ?thesis using ihD [OF _ d] g by (simp add: idle_def)
    qed
    then show "idle J s'" by (simp add: idle_def)
  qed
qed

lemma gate_clear_idle:
  "\<forall>s. idle (\<lambda>s. True) s \<longrightarrow>
     (\<forall>cs r s'. exec P n cs s = Some (r, s') \<longrightarrow> idle (\<lambda>s. True) s') \<and>
     (\<forall>c r s'. step P n c s = Some (r, s') \<longrightarrow> idle (\<lambda>s. True) s') \<and>
     (\<forall>f x y r s'. call P n f x y s = Some (r, s') \<longrightarrow> idle (\<lambda>s. True) s') \<and>
     (\<forall>act r s' called. dispatch P n act s = Some (r, s', called) \<longrightarrow> idle (\<lambda>s. True) s') \<and>
     (\<forall>ls i r s' called. notify P n ls i s = Some (r, s', called) \<longrightarrow> idle (\<lambda>s. True) s') \<and>
     (\<forall>nr r s'. replaceReducer P n nr s = Some (r, s') \<longrightarrow> idle (\<lambda>s. True) s')"
  by (rule idle_all) simp_all

lemma dispatch_gate_clear:
  assumes "\<not> isDispatching s" and "dispatch P n a s = Some (r, s', called)"
  shows "\<not> isDispatching s'"
proof -
  have "idle (\<lambda>s. True) s" using assms(1) by (simp add: idle_def)
  then have "idle (\<lambda>s. True) s'" using gate_clear_idle [of P n] assms(2) by blast
  then show ?thesis by (simp add: idle_def)
qed

section \<open>The committed array is not written\<close>

lemma wf_ensure: "wf s \<Longrightarrow> wf (ensureCanMutateNextListeners s)"
  by (auto simp: wf_def ensureCanMutateNextListeners_def)

lemma frozen_subscribe: "\<not> isDispatching s \<Longrightarrow> frozen a xs s \<Longrightarrow> frozen a xs (snd (subscribe l s))"
  by (auto simp: frozen_def wf_def subscribe_def ensureCanMutateNextListeners_def Let_def nth_append nth_list_update)

lemma frozen_unsubscribe: "\<not> isDispatching s \<Longrightarrow> frozen a xs s \<Longrightarrow> frozen a xs (snd (unsubscribe t s))"
  by (auto simp: frozen_def wf_def unsubscribe_def ensureCanMutateNextListeners_def Let_def nth_append nth_list_update)

lemma frozen_idle:
  "\<forall>s. idle (frozen a xs) s \<longrightarrow>
     (\<forall>cs r s'. exec P n cs s = Some (r, s') \<longrightarrow> idle (frozen a xs) s') \<and>
     (\<forall>c r s'. step P n c s = Some (r, s') \<longrightarrow> idle (frozen a xs) s') \<and>
     (\<forall>f x y r s'. call P n f x y s = Some (r, s') \<longrightarrow> idle (frozen a xs) s') \<and>
     (\<forall>act r s' called. dispatch P n act s = Some (r, s', called) \<longrightarrow> idle (frozen a xs) s') \<and>
     (\<forall>ls i r s' called. notify P n ls i s = Some (r, s', called) \<longrightarrow> idle (frozen a xs) s') \<and>
     (\<forall>nr r s'. replaceReducer P n nr s = Some (r, s') \<longrightarrow> idle (frozen a xs) s')"
  by (rule idle_all) (auto simp: frozen_subscribe frozen_unsubscribe, auto simp: frozen_def wf_def)

lemma frozen_call:
  "idle (frozen a xs) s \<Longrightarrow> call P n f x y s = Some (r, s') \<Longrightarrow> idle (frozen a xs) s'"
  using frozen_idle [of a xs P n] by blast

lemma frozen_notify:
  "idle (frozen a xs) s \<Longrightarrow> notify P n ls i s = Some (r, s', called) \<Longrightarrow> idle (frozen a xs) s'"
  using frozen_idle [of a xs P n] by blast

section \<open>The registry of listeners\<close>

lemma active_in_working:
  "registered s \<Longrightarrow> t < length (subscriptions s) \<Longrightarrow> subscriptions s ! t = (l, True) \<Longrightarrow>
     l \<in> set (arrays s ! nextListeners s)"
proof -
  assume r: "registered s" and t: "t < length (subscriptions s)" and a: "subscriptions s ! t = (l, True)"
  from t a have "(l, True) \<in> set (subscriptions s)" by (metis nth_mem)
  then have "l \<in> set (map fst (filter snd (subscriptions s)))" by force
  then have "l \<in># mset (arrays s ! nextListeners s)" using r by (simp add: registered_def)
  then show ?thesis by simp
qed

lemma registered_subscribe:
  "\<not> isDispatching s \<Longrightarrow> registered s \<Longrightarrow> registered (snd (subscribe l s))"
  by (auto simp: registered_def wf_def subscribe_def ensureCanMutateNextListeners_def Let_def nth_append nth_list_update)

lemma registered_unsubscribe:
  assumes "\<not> isDispatching s" and r: "registered s" and t: "t < length (subscriptions s)"
  shows "registered (snd (unsubscribe t s))"
proof (cases "snd (subscriptions s ! t)")
  case False
  with r show ?thesis by (simp add: unsubscribe_def Let_def)
next
  case True
  define l where "l = fst (subscriptions s ! t)"
  have a: "subscriptions s ! t = (l, True)" using True l_def by (simp add: prod_eq_iff)
  have mem: "l \<in> set (arrays s ! nextListeners s)" using active_in_working [OF r t a] .
  have f: "mset (map fst (filter snd ((subscriptions s)[t := (l, False)]))) =
           mset (map fst (filter snd (subscriptions s))) - {#l#}"
    using filter_unsubscribed [OF t True] l_def by simp
  from r have w: "currentListeners s < length (arrays s)" "nextListeners s < length (arrays s)"
    and m: "mset (arrays s ! nextListeners s) = mset (map fst (filter snd (subscriptions s)))"
    by (simp_all add: registered_def wf_def)
  show ?thesis
    using assms(1) True w m f mem l_def
    by (auto simp: registered_def wf_def unsubscribe_def ensureCanMutateNextListeners_def Let_def
                   nth_append nth_list_update splice_indexOf)
qed

lemma registered_idle:
  "\<forall>s. idle registered s \<longrightarrow>
     (\<forall>cs r s'. exec P n cs s = Some (r, s') \<longrightarrow> idle registered s') \<and>
     (\<forall>c r s'. step P n c s = Some (r, s') \<longrightarrow> idle registered s') \<and>
     (\<forall>f x y r s'. call P n f x y s = Some (r, s') \<longrightarrow> idle registered s') \<and>
     (\<forall>act r s' called. dispatch P n act s = Some (r, s', called) \<longrightarrow> idle registered s') \<and>
     (\<forall>ls i r s' called. notify P n ls i s = Some (r, s', called) \<longrightarrow> idle registered s') \<and>
     (\<forall>nr r s'. replaceReducer P n nr s = Some (r, s') \<longrightarrow> idle registered s')"
  by (rule idle_all) (auto simp: registered_subscribe registered_unsubscribe, auto simp: registered_def wf_def)

lemma registered_dispatch:
  "idle registered s \<Longrightarrow> dispatch P n act s = Some (r, s', called) \<Longrightarrow> idle registered s'"
  using registered_idle [of P n] by blast

lemma initialStore_registered: "idle registered (initialStore reducer preloadedState)"
  by (simp add: idle_def registered_def wf_def initialStore_def)

lemma createStore_registered:
  assumes "createStore P n reducer preloadedState enhancer = Some (Store s)"
  shows "idle registered s"
proof -
  from assms obtain r called x where
    "dispatch P n (Obj [(''type'', ActionTypes_INIT)]) (initialStore reducer x) = Some (r, s, called)"
    by (auto simp: createStore_def Let_def split: if_splits option.splits completion.splits)
  then show ?thesis using registered_dispatch [OF initialStore_registered] by blast
qed

lemma subscribe_registered:
  "idle registered s \<Longrightarrow> idle registered (snd (subscribe l s))"
  by (simp add: idle_def registered_subscribe subscribe_gate)

section \<open>The notification loop\<close>

text \<open>
  The loop calls the listeners of the array as it was committed, in order, up to the
  first one that throws.
\<close>

lemma notify_snapshot:
  "idle (frozen a xs) s \<Longrightarrow> notify P n a i s = Some (r, s', called) \<Longrightarrow>
     (case r of Returned _ \<Rightarrow> called = drop i xs
              | Thrown e \<Rightarrow> called = take (length called) (drop i xs) \<and> called \<noteq> [])"
proof (induction n arbitrary: i s r s' called)
  case 0
  then show ?case by simp
next
  case (Suc n)
  from Suc.prems(1) have xs: "arrays s ! a = xs" by (simp add: idle_def frozen_def)
  show ?case
  proof (cases "i < length xs")
    case False
    with Suc.prems(2) xs show ?thesis by auto
  next
    case True
    with Suc.prems(2) xs obtain r1 s1 where c1: "call P n (xs ! i) Undefined Undefined s = Some (r1, s1)"
      by (auto simp: Let_def split: option.splits)
    have i1: "idle (frozen a xs) s1" using frozen_call [OF Suc.prems(1) c1] .
    have d: "drop i xs = xs ! i # drop (Suc i) xs" using True by (simp add: Cons_nth_drop_Suc)
    show ?thesis
    proof (cases r1)
      case (Thrown e)
      with Suc.prems(2) True xs c1 d show ?thesis by (auto simp: Let_def)
    next
      case (Returned v)
      with Suc.prems(2) True xs c1 obtain c2 where
        n2: "notify P n a (Suc i) s1 = Some (r, s', c2)" and c: "called = xs ! i # c2"
        by (auto simp: Let_def split: option.splits)
      from Suc.IH [OF i1 n2] c d show ?thesis by (cases r) simp_all
    qed
  qed
qed

lemma notify_thrower:
  "notify P n a i s = Some (Thrown e, s', called) \<Longrightarrow>
     called \<noteq> [] \<and> (\<exists>m u. call P m (last called) Undefined Undefined u = Some (Thrown e, s'))"
proof (induction n arbitrary: i s called)
  case 0
  then show ?case by simp
next
  case (Suc n)
  show ?case
  proof (cases "i < length (arrays s ! a)")
    case False
    with Suc.prems show ?thesis by simp
  next
    case True
    with Suc.prems obtain r1 s1 where
      c1: "call P n (arrays s ! a ! i) Undefined Undefined s = Some (r1, s1)"
      by (auto simp: Let_def split: option.splits)
    show ?thesis
    proof (cases r1)
      case (Thrown x)
      with Suc.prems True c1 have "called = [arrays s ! a ! i]" "s' = s1" "x = e"
        by (auto simp: Let_def)
      with c1 Thrown show ?thesis by auto
    next
      case (Returned v)
      with Suc.prems True c1 obtain c2 where
        n2: "notify P n a (Suc i) s1 = Some (Thrown e, s', c2)" and c: "called = arrays s ! a ! i # c2"
        by (auto simp: Let_def split: option.splits)
      from Suc.IH [OF n2] c show ?thesis by auto
    qed
  qed
qed

lemma dispatch_unfold:
  assumes "isPlainObject act" and "getProp act ''type'' \<noteq> Undefined" and "\<not> isDispatching s"
    and "call P n (currentReducer s) (currentState s) act (s\<lparr>isDispatching := True\<rparr>) = Some (Returned v, s1)"
  shows "dispatch P (Suc n) act s =
     (case notify P n (nextListeners s) 0
             (s1\<lparr>currentState := v, isDispatching := False, currentListeners := nextListeners s\<rparr>) of
        None \<Rightarrow> None
      | Some (Thrown e, s4, called) \<Rightarrow> Some (Thrown e, s4, called)
      | Some (Returned u, s4, called) \<Rightarrow> Some (Returned act, s4, called))"
proof -
  have "gateRun (s\<lparr>isDispatching := True\<rparr>) s1" using call_gate [OF _ assms(4)] by simp
  then have "nextListeners s1 = nextListeners s" using gateRun_fields by fastforce
  with assms show ?thesis by (simp add: Let_def)
qed

lemma committed_frozen:
  assumes "wf s" and g: "gateRun (s\<lparr>isDispatching := True\<rparr>) s1"
  shows "idle (frozen (nextListeners s) (arrays s ! nextListeners s))
           (s1\<lparr>currentState := v, isDispatching := False, currentListeners := nextListeners s\<rparr>)"
proof -
  from gateRun_fields [OF g] have "arrays s1 = arrays s" "nextListeners s1 = nextListeners s" by simp_all
  with assms(1) show ?thesis by (simp add: idle_def frozen_def wf_def)
qed

lemma dispatch_called:
  assumes w: "wf s" and i: "\<not> isDispatching s" and d: "dispatch P n act s = Some (r, s', called)"
  shows "case r of Returned v \<Rightarrow> v = act \<and> called = arrays s ! nextListeners s
                 | Thrown e \<Rightarrow> called = take (length called) (arrays s ! nextListeners s)"
proof (cases n)
  case 0
  with d show ?thesis by simp
next
  case (Suc m)
  show ?thesis
  proof (cases "isPlainObject act \<and> getProp act ''type'' \<noteq> Undefined")
    case False
    with d Suc show ?thesis by (auto split: if_splits)
  next
    case True
    with d Suc i obtain r1 s1 where
      c1: "call P m (currentReducer s) (currentState s) act (s\<lparr>isDispatching := True\<rparr>) = Some (r1, s1)"
      by (auto split: option.splits)
    have g: "gateRun (s\<lparr>isDispatching := True\<rparr>) s1" using call_gate [OF _ c1] by simp
    show ?thesis
    proof (cases r1)
      case (Thrown e)
      with d Suc True i c1 show ?thesis by auto
    next
      case (Returned v)
      let ?s3 = "s1\<lparr>currentState := v, isDispatching := False, currentListeners := nextListeners s\<rparr>"
      have u: "dispatch P (Suc m) act s =
        (case notify P m (nextListeners s) 0 ?s3 of
           None \<Rightarrow> None
         | Some (Thrown e, s4, called) \<Rightarrow> Some (Thrown e, s4, called)
         | Some (Returned u, s4, called) \<Rightarrow> Some (Returned act, s4, called))"
        using dispatch_unfold [of act s P m v s1] True i c1 Returned by simp
      with d Suc obtain r2 where
        n2: "notify P m (nextListeners s) 0 ?s3 = Some (r2, s', called)"
        and r: "r = (case r2 of Returned u \<Rightarrow> Returned act | Thrown e \<Rightarrow> Thrown e)"
        by (auto split: option.splits completion.splits)
      from notify_snapshot [OF committed_frozen [OF w g] n2] r show ?thesis
        by (cases r2) simp_all
    qed
  qed
qed

section \<open>The notification phase is that of the spec\<close>

text \<open>
  The loop of \<open>dispatch\<close> over the committed array does what the spec says of the
  notification phase, whatever the listeners do to the store meanwhile.
\<close>

lemma invokeSnapshot_split:
  "invokeSnapshot P n (ahead @ l # behind) s = invokeThrough P n ahead l behind s"
proof (induction ahead arbitrary: n s)
  case Nil
  show ?case by (cases n) (auto simp: invokeThrough_def split: option.splits completion.splits)
next
  case (Cons p ps)
  show ?case
  proof (cases n)
    case 0
    then show ?thesis by (simp add: invokeThrough_def)
  next
    case (Suc m)
    have ih: "\<And>s. invokeSnapshot P m (ps @ l # behind) s = invokeThrough P m ps l behind s"
      using Cons.IH .
    show ?thesis using Suc
      by (auto simp: ih invokeThrough_def split: option.splits completion.splits)
  qed
qed

lemma notify_invokeSnapshot:
  "idle (frozen a xs) s \<Longrightarrow> notify P n a i s = invokeSnapshot P n (drop i xs) s"
proof (induction n arbitrary: i s)
  case 0
  show ?case by simp
next
  case (Suc n)
  from Suc.prems have xs: "arrays s ! a = xs" by (simp add: idle_def frozen_def)
  show ?case
  proof (cases "i < length xs")
    case False
    with xs show ?thesis by simp
  next
    case True
    have d: "drop i xs = xs ! i # drop (Suc i) xs" using True by (simp add: Cons_nth_drop_Suc)
    show ?thesis
    proof (cases "call P n (xs ! i) Undefined Undefined s")
      case None
      with True xs d show ?thesis by (simp add: Let_def)
    next
      case (Some x)
      obtain r1 s1 where x: "x = (r1, s1)" by (cases x)
      have i1: "idle (frozen a xs) s1" using frozen_call [OF Suc.prems] Some x by simp
      have "notify P n a (Suc i) s1 = invokeSnapshot P n (drop (Suc i) xs) s1" using Suc.IH [OF i1] .
      with True xs d Some x show ?thesis by (cases r1) (simp_all add: Let_def)
    qed
  qed
qed

lemma dispatch_invokeSnapshot:
  assumes "wf s" and "\<not> isDispatching s"
    and "isPlainObject act" and "getProp act ''type'' \<noteq> Undefined"
    and red: "call P n (currentReducer s) (currentState s) act (s\<lparr>isDispatching := True\<rparr>) = Some (Returned v, s1)"
  shows "dispatch P (Suc n) act s =
           returning act (invokeSnapshot P n (arrays s ! nextListeners s) (committed s v s1))"
proof -
  have g: "gateRun (s\<lparr>isDispatching := True\<rparr>) s1" using call_gate [OF _ red] by simp
  have "notify P n (nextListeners s) 0 (committed s v s1) =
          invokeSnapshot P n (drop 0 (arrays s ! nextListeners s)) (committed s v s1)"
    unfolding committed_def by (rule notify_invokeSnapshot [OF committed_frozen [OF assms(1) g]])
  then show ?thesis
    using dispatch_unfold [OF assms(3,4,2) red] by (simp add: returning_def committed_def)
qed

lemma committed_registered:
  assumes "registered s" and red: "call P n f x y (s\<lparr>isDispatching := True\<rparr>) = Some (r, s1)"
  shows "idle registered (committed s v s1)" and "subscriptions (committed s v s1) = subscriptions s"
    and "idle (frozen (nextListeners s) (arrays s ! nextListeners s)) (committed s v s1)"
proof -
  have g: "gateRun (s\<lparr>isDispatching := True\<rparr>) s1" using call_gate [OF _ red] by simp
  from gateRun_fields [OF g] have f: "arrays s1 = arrays s" "nextListeners s1 = nextListeners s"
    "subscriptions s1 = subscriptions s" by simp_all
  with assms(1) show "idle registered (committed s v s1)"
    by (simp add: idle_def registered_def wf_def committed_def)
  from f show "subscriptions (committed s v s1) = subscriptions s" by (simp add: committed_def)
  have "wf s" using assms(1) by (simp add: registered_def)
  from committed_frozen [OF this g]
  show "idle (frozen (nextListeners s) (arrays s ! nextListeners s)) (committed s v s1)"
    by (simp add: committed_def)
qed

section \<open>From one store call to a later one\<close>

lemma registered_step:
  assumes "idle registered s" and "step P n c s = Some (r, s')"
  shows "idle registered s'"
  using registered_idle [of P n, THEN spec, THEN mp, OF assms(1), THEN conjunct2, THEN conjunct1,
                         THEN spec, THEN spec, THEN spec, THEN mp, OF assms(2)] .

lemma frozen_step:
  assumes "idle (frozen a xs) s" and "step P n c s = Some (r, s')"
  shows "idle (frozen a xs) s'"
  using frozen_idle [of a xs P n, THEN spec, THEN mp, OF assms(1), THEN conjunct2, THEN conjunct1,
                     THEN spec, THEN spec, THEN spec, THEN mp, OF assms(2)] .

lemma runs_registered: "runs P s u \<Longrightarrow> idle registered s \<Longrightarrow> idle registered u"
  by (induction rule: runs.induct) (auto intro: registered_step)

lemma runs_frozen: "runs P s u \<Longrightarrow> idle (frozen a xs) s \<Longrightarrow> idle (frozen a xs) u"
  by (induction rule: runs.induct) (auto intro: frozen_step)

lemma closureOf_subscribe: "closureOf t l s \<Longrightarrow> closureOf t l (snd (subscribe l' s))"
  by (auto simp: closureOf_def subscribe_def ensureCanMutateNextListeners_def Let_def nth_append)

lemma closureOf_unsubscribe: "closureOf t l s \<Longrightarrow> closureOf t l (snd (unsubscribe t' s))"
  by (cases "t' = t") (auto simp: closureOf_def unsubscribe_def ensureCanMutateNextListeners_def Let_def)

lemma closureOf_idle:
  "\<forall>s. idle (closureOf t l) s \<longrightarrow>
     (\<forall>cs r s'. exec P n cs s = Some (r, s') \<longrightarrow> idle (closureOf t l) s') \<and>
     (\<forall>c r s'. step P n c s = Some (r, s') \<longrightarrow> idle (closureOf t l) s') \<and>
     (\<forall>f x y r s'. call P n f x y s = Some (r, s') \<longrightarrow> idle (closureOf t l) s') \<and>
     (\<forall>act r s' called. dispatch P n act s = Some (r, s', called) \<longrightarrow> idle (closureOf t l) s') \<and>
     (\<forall>ls i r s' called. notify P n ls i s = Some (r, s', called) \<longrightarrow> idle (closureOf t l) s') \<and>
     (\<forall>nr r s'. replaceReducer P n nr s = Some (r, s') \<longrightarrow> idle (closureOf t l) s')"
  by (rule idle_all) (auto simp: closureOf_subscribe closureOf_unsubscribe, auto simp: closureOf_def)

lemma closureOf_step:
  assumes "idle (closureOf t l) s" and "step P n c s = Some (r, s')"
  shows "idle (closureOf t l) s'"
  using closureOf_idle [of t l P n, THEN spec, THEN mp, OF assms(1), THEN conjunct2, THEN conjunct1,
                        THEN spec, THEN spec, THEN spec, THEN mp, OF assms(2)] .

lemma runs_closureOf: "runs P s u \<Longrightarrow> idle (closureOf t l) s \<Longrightarrow> idle (closureOf t l) u"
  by (induction rule: runs.induct) (auto intro: closureOf_step)

lemma subscribe_returned:
  assumes s: "subscribe B w = (Returned t, w1)" and i: "idle registered w"
  shows "t = length (subscriptions w)" and "subscriptions w1 ! t = (B, True)"
    and "idle registered w1" and "idle (closureOf t B) w1"
    and "B \<in> set (arrays w1 ! nextListeners w1)"
proof -
  from s have f: "isFunction B" "\<not> isDispatching w"
    by (auto simp: subscribe_def Let_def split: if_splits)
  from s f show t: "t = length (subscriptions w)" by (simp add: subscribe_def Let_def)
  from s have w1: "w1 = snd (subscribe B w)" by simp
  from s f have subs: "subscriptions w1 = subscriptions w @ [(B, True)]"
    by (auto simp: subscribe_def ensureCanMutateNextListeners_def Let_def)
  with t show a: "subscriptions w1 ! t = (B, True)" by simp
  show r: "idle registered w1" using subscribe_registered [OF i] w1 by simp
  from r subs t show "idle (closureOf t B) w1" by (simp add: idle_def closureOf_def)
  have "t < length (subscriptions w1)" using subs t by simp
  from active_in_working [OF _ this a] r show "B \<in> set (arrays w1 ! nextListeners w1)"
    by (simp add: idle_def)
qed

lemma unsubscribe_removes:
  assumes i: "idle registered w" and t: "t < length (subscriptions w)"
    and a: "subscriptions w ! t = (C, True)"
  shows "fst (unsubscribe t w) = Returned ()"
    and "arrays (snd (unsubscribe t w)) ! nextListeners (snd (unsubscribe t w)) =
           remove1 C (arrays w ! nextListeners w)"
    and "subscriptions (snd (unsubscribe t w)) ! t = (C, False)"
proof -
  from i have g: "\<not> isDispatching w" and r: "registered w" by (simp_all add: idle_def)
  have mem: "C \<in> set (arrays w ! nextListeners w)" using active_in_working [OF r t a] .
  from r have w: "currentListeners w < length (arrays w)" "nextListeners w < length (arrays w)"
    by (simp_all add: registered_def wf_def)
  show "fst (unsubscribe t w) = Returned ()" using g a by (simp add: unsubscribe_def Let_def)
  show "arrays (snd (unsubscribe t w)) ! nextListeners (snd (unsubscribe t w)) =
           remove1 C (arrays w ! nextListeners w)"
    using g a w mem
    by (auto simp: unsubscribe_def ensureCanMutateNextListeners_def Let_def nth_append splice_indexOf)
  show "subscriptions (snd (unsubscribe t w)) ! t = (C, False)"
    using g a t by (simp add: unsubscribe_def ensureCanMutateNextListeners_def Let_def)
qed

section \<open>Listeners that do not dispatch\<close>

lemma quiet_all:
  "\<forall>s. \<not> isDispatching s \<longrightarrow>
     (\<forall>cs r s'. list_all quiet cs \<longrightarrow> exec P n cs s = Some (r, s') \<longrightarrow> currentState s' = currentState s \<and> \<not> isDispatching s') \<and>
     (\<forall>c r s'. quiet c \<longrightarrow> step P n c s = Some (r, s') \<longrightarrow> currentState s' = currentState s \<and> \<not> isDispatching s')"
proof (induction n)
  case 0
  then show ?case by simp
next
  case (Suc n)
  have ihE: "\<And>s cs r s'. \<not> isDispatching s \<Longrightarrow> list_all quiet cs \<Longrightarrow> exec P n cs s = Some (r, s') \<Longrightarrow> currentState s' = currentState s \<and> \<not> isDispatching s'"
    and ihS: "\<And>s c r s'. \<not> isDispatching s \<Longrightarrow> quiet c \<Longrightarrow> step P n c s = Some (r, s') \<Longrightarrow> currentState s' = currentState s \<and> \<not> isDispatching s'"
    using Suc.IH by metis+
  show ?case
  proof (intro allI impI conjI)
    fix s cs r s'
    assume g: "\<not> isDispatching s" and q: "list_all quiet cs" and e: "exec P (Suc n) cs s = Some (r, s')"
    have "currentState s' = currentState s \<and> \<not> isDispatching s'"
    proof (cases cs)
      case Nil
      with e g show ?thesis by simp
    next
      case (Cons c cs')
      with e obtain r1 s1 where st1: "step P n c s = Some (r1, s1)"
        by (auto split: option.splits)
      have g1: "currentState s1 = currentState s \<and> \<not> isDispatching s1"
        using ihS [OF g _ st1] q Cons by simp
      show ?thesis
      proof (cases r1)
        case (Thrown x)
        with e Cons st1 g1 show ?thesis by simp
      next
        case (Returned u)
        with e Cons st1 have "exec P n cs' s1 = Some (r, s')" by simp
        then show ?thesis using ihE [of s1 cs' r s'] g1 q Cons by simp
      qed
    qed
    then show "currentState s' = currentState s" and "\<not> isDispatching s'" by simp_all
  next
    fix s c r s'
    assume g: "\<not> isDispatching s" and q: "quiet c" and e: "step P (Suc n) c s = Some (r, s')"
    have "currentState s' = currentState s \<and> \<not> isDispatching s'"
    proof (cases c)
      case (Subscribe l)
      with e g show ?thesis
        by (auto simp: subscribe_def ensureCanMutateNextListeners_def Let_def split: if_splits)
    next
      case (Unsubscribe t)
      with e g show ?thesis
        by (auto simp: unsubscribe_def ensureCanMutateNextListeners_def Let_def split: if_splits)
    next
      case GetState
      with e g show ?thesis by (auto simp: getState_def)
    next
      case (Throw x)
      with e g show ?thesis by simp
    next
      case (Log m)
      with e g show ?thesis by auto
    next
      case (Try cs)
      with e g q show ?thesis using ihE [of s cs] by (auto split: option.splits)
    next
      case (IfState p c1 c2)
      with e g q show ?thesis using ihE [of s "if p (currentState s) then c1 else c2" r s']
        by (auto simp: getState_def)
    qed (use q in simp_all)
    then show "currentState s' = currentState s" and "\<not> isDispatching s'" by simp_all
  qed
qed

lemma quiet_call:
  assumes "\<not> isDispatching s" and "quietListener P l" and c: "call P n l x y s = Some (r, s')"
  shows "currentState s' = currentState s"
proof (cases n)
  case 0
  with c show ?thesis by simp
next
  case (Suc m)
  show ?thesis
  proof (cases l)
    case (Func k)
    with c Suc obtain r1 where "exec P m (body (P k)) s = Some (r1, s')"
      by (auto split: option.splits completion.splits sum.splits)
    moreover have "list_all quiet (body (P k))" using assms(2) Func by (simp add: quietListener_def)
    ultimately show ?thesis using quiet_all [of P m] assms(1) by blast
  qed (use c Suc in auto)
qed

lemma quiet_notify:
  "idle (frozen a xs) s \<Longrightarrow> notify P n a i s = Some (r, s', called) \<Longrightarrow>
     list_all (quietListener P) called \<Longrightarrow> currentState s' = currentState s"
proof (induction n arbitrary: i s r s' called)
  case 0
  then show ?case by simp
next
  case (Suc n)
  from Suc.prems(1) have xs: "arrays s ! a = xs" and g: "\<not> isDispatching s"
    by (simp_all add: idle_def frozen_def)
  show ?case
  proof (cases "i < length xs")
    case False
    with Suc.prems(2) xs show ?thesis by auto
  next
    case True
    with Suc.prems(2) xs obtain r1 s1 where c1: "call P n (xs ! i) Undefined Undefined s = Some (r1, s1)"
      by (auto simp: Let_def split: option.splits)
    have i1: "idle (frozen a xs) s1" using frozen_call [OF Suc.prems(1) c1] .
    show ?thesis
    proof (cases r1)
      case (Thrown e)
      with Suc.prems True xs c1 have "s' = s1" and "quietListener P (xs ! i)"
        by (auto simp: Let_def)
      then show ?thesis using quiet_call [OF g _ c1] by simp
    next
      case (Returned v)
      with Suc.prems(2) True xs c1 obtain c2 where
        n2: "notify P n a (Suc i) s1 = Some (r, s', c2)" and c: "called = xs ! i # c2"
        by (auto simp: Let_def split: option.splits)
      from c Suc.prems(3) have q: "quietListener P (xs ! i)" "list_all (quietListener P) c2" by simp_all
      from Suc.IH [OF i1 n2 q(2)] quiet_call [OF g q(1) c1] show ?thesis by simp
    qed
  qed
qed

section \<open>The log is only extended\<close>

lemma log_all:
  "\<forall>s.
     (\<forall>cs r s'. exec P n cs s = Some (r, s') \<longrightarrow> prefix (log s) (log s')) \<and>
     (\<forall>c r s'. step P n c s = Some (r, s') \<longrightarrow> prefix (log s) (log s')) \<and>
     (\<forall>f x y r s'. call P n f x y s = Some (r, s') \<longrightarrow> prefix (log s) (log s')) \<and>
     (\<forall>a r s' called. dispatch P n a s = Some (r, s', called) \<longrightarrow> prefix (log s) (log s')) \<and>
     (\<forall>ls i r s' called. notify P n ls i s = Some (r, s', called) \<longrightarrow> prefix (log s) (log s')) \<and>
     (\<forall>nr r s'. replaceReducer P n nr s = Some (r, s') \<longrightarrow> prefix (log s) (log s'))"
proof (induction n)
  case 0
  then show ?case by simp
next
  case (Suc n)
  have ihE: "\<And>s cs r s'. exec P n cs s = Some (r, s') \<Longrightarrow> prefix (log s) (log s')"
    and ihS: "\<And>s c r s'. step P n c s = Some (r, s') \<Longrightarrow> prefix (log s) (log s')"
    and ihC: "\<And>s f x y r s'. call P n f x y s = Some (r, s') \<Longrightarrow> prefix (log s) (log s')"
    and ihD: "\<And>s a r s' called. dispatch P n a s = Some (r, s', called) \<Longrightarrow> prefix (log s) (log s')"
    and ihN: "\<And>s ls i r s' called. notify P n ls i s = Some (r, s', called) \<Longrightarrow> prefix (log s) (log s')"
    and ihR: "\<And>s nr r s'. replaceReducer P n nr s = Some (r, s') \<Longrightarrow> prefix (log s) (log s')"
    using Suc.IH by metis+
  show ?case
  proof (intro allI impI conjI)
    fix s cs r s'
    assume e: "exec P (Suc n) cs s = Some (r, s')"
    show "prefix (log s) (log s')"
    proof (cases cs)
      case Nil
      with e show ?thesis by simp
    next
      case (Cons c cs')
      with e obtain r1 s1 where st1: "step P n c s = Some (r1, s1)"
        by (auto split: option.splits)
      have g1: "prefix (log s) (log s1)" using ihS [OF st1] .
      show ?thesis
      proof (cases r1)
        case (Thrown x)
        with e Cons st1 g1 show ?thesis by simp
      next
        case (Returned u)
        with e Cons st1 have "exec P n cs' s1 = Some (r, s')" by simp
        then show ?thesis using ihE [of cs' s1 r s'] g1 by (meson prefix_order.trans)
      qed
    qed
  next
    fix s c r s'
    assume e: "step P (Suc n) c s = Some (r, s')"
    show "prefix (log s) (log s')"
    proof (cases c)
      case (Dispatch a)
      with e show ?thesis using ihD [of a s] by (auto split: option.splits)
    next
      case (Subscribe l)
      with e show ?thesis
        by (auto simp: subscribe_def ensureCanMutateNextListeners_def Let_def split: if_splits)
    next
      case (Unsubscribe t)
      with e show ?thesis
        by (auto simp: unsubscribe_def ensureCanMutateNextListeners_def Let_def split: if_splits)
    next
      case GetState
      with e show ?thesis by (auto simp: getState_def split: if_splits)
    next
      case (ReplaceReducer nr)
      with e show ?thesis using ihR [of nr s] by simp
    next
      case (Throw x)
      with e show ?thesis by simp
    next
      case (Log m)
      with e show ?thesis by auto
    next
      case (Try cs)
      with e show ?thesis using ihE [of cs s] by (auto split: option.splits)
    next
      case (IfState p c1 c2)
      with e show ?thesis using ihE [of "if p (currentState s) then c1 else c2" s r s']
        by (auto simp: getState_def split: if_splits)
    qed
  next
    fix s f x y r s'
    assume e: "call P (Suc n) f x y s = Some (r, s')"
    show "prefix (log s) (log s')"
    proof (cases f)
      case (Func k)
      with e show ?thesis using ihE [of "body (P k)" s]
        by (auto split: option.splits completion.splits sum.splits)
    qed (use e in auto)
  next
    fix s a r s' called
    assume e: "dispatch P (Suc n) a s = Some (r, s', called)"
    show "prefix (log s) (log s')"
    proof (cases "isPlainObject a \<and> getProp a ''type'' \<noteq> Undefined \<and> \<not> isDispatching s")
      case False
      with e show ?thesis by (auto split: if_splits)
    next
      case True
      with e obtain r1 s1 where c1: "call P n (currentReducer s) (currentState s) a (s\<lparr>isDispatching := True\<rparr>) = Some (r1, s1)"
        by (auto split: option.splits)
      have p1: "prefix (log s) (log s1)" using ihC [OF c1] by simp
      show ?thesis
      proof (cases r1)
        case (Thrown x)
        with e True c1 have "s' = s1\<lparr>isDispatching := False\<rparr>" by simp
        then show ?thesis using p1 by simp
      next
        case (Returned v)
        let ?s2 = "s1\<lparr>currentState := v, isDispatching := False\<rparr>"
        let ?s3 = "?s2\<lparr>currentListeners := nextListeners ?s2\<rparr>"
        from e True c1 Returned obtain r2 where
          "notify P n (currentListeners ?s3) 0 ?s3 = Some (r2, s', called)"
          by (auto simp: Let_def split: option.splits completion.splits)
        from ihN [OF this] have "prefix (log s1) (log s')" by simp
        with p1 show ?thesis by (meson prefix_order.trans)
      qed
    qed
  next
    fix s ls i r s' called
    assume e: "notify P (Suc n) ls i s = Some (r, s', called)"
    show "prefix (log s) (log s')"
    proof (cases "i < length (arrays s ! ls)")
      case False
      with e show ?thesis by auto
    next
      case True
      with e obtain r1 s1 where c1: "call P n (arrays s ! ls ! i) Undefined Undefined s = Some (r1, s1)"
        by (auto simp: Let_def split: option.splits)
      have g1: "prefix (log s) (log s1)" using ihC [OF c1] .
      show ?thesis
      proof (cases r1)
        case (Thrown x)
        with e True c1 g1 show ?thesis by (auto simp: Let_def)
      next
        case (Returned v)
        with e True c1 obtain c2 where "notify P n ls (i + 1) s1 = Some (r, s', c2)"
          by (auto simp: Let_def split: option.splits)
        from ihN [OF this] g1 show ?thesis by (meson prefix_order.trans)
      qed
    qed
  next
    fix s nr r s'
    assume e: "replaceReducer P (Suc n) nr s = Some (r, s')"
    show "prefix (log s) (log s')"
    proof (cases "isFunction nr")
      case False
      with e show ?thesis by simp
    next
      case True
      with e obtain r1 c1 where d: "dispatch P n (Obj [(''type'', ActionTypes_REPLACE)]) (s\<lparr>currentReducer := nr\<rparr>) = Some (r1, s', c1)"
        by (auto split: option.splits)
      from ihD [OF d] show ?thesis by simp
    qed
  qed
qed

lemma dispatch_log:
  "dispatch P n a s = Some (r, s', called) \<Longrightarrow> \<exists>mid. log s' = log s @ mid"
  using log_all [of P n] by (meson prefixE)

section \<open>Snapshot isolation\<close>

text \<open>
  C1 (as amended). A dispatch of a well-formed action begins in an idle store \<open>s\<close>
  with a consistent listener registry, and its reducer returns \<open>v\<close>. \<open>B\<close> is not
  in the working list of \<open>s\<close>. In a store \<open>w\<close> reached after the commit, a listener
  calls \<open>subscribe(B)\<close>, which returns the closure \<open>t\<close> and leaves \<open>w1\<close>. A later
  dispatch, nested in a listener or not, begins in a store \<open>u\<close> reached from \<open>w1\<close>
  in which that closure has not been called, and its reducer returns. Then:
  the notification phase of the first dispatch is the invocation of the listeners of the
  working list of \<open>s\<close>, where \<open>B\<close> does not occur, and its loop does not call \<open>B\<close>;
  the call of \<open>subscribe\<close> leaves that committed array as it was and puts \<open>B\<close> in the
  working list; and the working list of \<open>u\<close>, which the later dispatch commits, holds
  \<open>B\<close>, so that its notification phase calls the listeners ahead of \<open>B\<close> and, once
  they have all returned, calls \<open>B\<close>.
\<close>

theorem subscribed_listener_runs_next:
  assumes "registered s" and "\<not> isDispatching s"
    and "isPlainObject action" and "getProp action ''type'' \<noteq> Undefined"
    and red: "call P n (currentReducer s) (currentState s) action (s\<lparr>isDispatching := True\<rparr>) =
           Some (Returned v, s1)"
    and new: "B \<notin> set (arrays s ! nextListeners s)"
    and during: "runs P (committed s v s1) w"
    and sub: "subscribe B w = (Returned t, w1)"
    and later: "runs P w1 u"
    and still: "snd (subscriptions u ! t)"
    and "isPlainObject action'" and "getProp action' ''type'' \<noteq> Undefined"
    and red': "call P n' (currentReducer u) (currentState u) action' (u\<lparr>isDispatching := True\<rparr>) =
           Some (Returned v', u1)"
  shows "dispatch P (Suc n) action s =
           returning action (invokeSnapshot P n (arrays s ! nextListeners s) (committed s v s1)) \<and>
         (\<forall>r s' called. dispatch P (Suc n) action s = Some (r, s', called) \<longrightarrow> B \<notin> set called) \<and>
         arrays w1 ! nextListeners s = arrays s ! nextListeners s \<and>
         B \<in> set (arrays w1 ! nextListeners w1) \<and>
         (\<exists>ahead behind.
            arrays u ! nextListeners u = ahead @ B # behind \<and>
            dispatch P (Suc n') action' u =
              returning action' (invokeThrough P n' ahead B behind (committed u v' u1)))"
proof -
  have w: "wf s" using assms(1) by (simp add: registered_def)
  have c1: "dispatch P (Suc n) action s =
           returning action (invokeSnapshot P n (arrays s ! nextListeners s) (committed s v s1))"
    using dispatch_invokeSnapshot [OF w assms(2,3,4) red] .
  have c2: "\<forall>r s' called. dispatch P (Suc n) action s = Some (r, s', called) \<longrightarrow> B \<notin> set called"
  proof (intro allI impI)
    fix r s' called
    assume d: "dispatch P (Suc n) action s = Some (r, s', called)"
    have "called = take (length called) (arrays s ! nextListeners s)"
      using dispatch_called [OF w assms(2) d] by (cases r) simp_all
    then have "set called \<subseteq> set (arrays s ! nextListeners s)" by (metis set_take_subset)
    with new show "B \<notin> set called" by auto
  qed
  note cr = committed_registered [OF assms(1) red, of v]
  have iw: "idle registered w" using runs_registered [OF during cr(1)] .
  have fw: "idle (frozen (nextListeners s) (arrays s ! nextListeners s)) w"
    using runs_frozen [OF during cr(3)] .
  note sr = subscribe_returned [OF sub iw]
  have w1: "w1 = snd (subscribe B w)" using sub by simp
  have "frozen (nextListeners s) (arrays s ! nextListeners s) w1"
    unfolding w1 using frozen_subscribe fw by (simp add: idle_def)
  then have c3: "arrays w1 ! nextListeners s = arrays s ! nextListeners s" by (simp add: frozen_def)
  have iu: "idle registered u" using runs_registered [OF later sr(3)] .
  have cu: "idle (closureOf t B) u" using runs_closureOf [OF later sr(4)] .
  from cu have tu: "t < length (subscriptions u)" and "fst (subscriptions u ! t) = B"
    by (simp_all add: idle_def closureOf_def)
  with still have au: "subscriptions u ! t = (B, True)" by (simp add: prod_eq_iff)
  from iu have ru: "registered u" and gu: "\<not> isDispatching u" by (simp_all add: idle_def)
  have "B \<in> set (arrays u ! nextListeners u)" using active_in_working [OF ru tu au] .
  then obtain ahead behind where sp: "arrays u ! nextListeners u = ahead @ B # behind"
    by (auto simp: in_set_conv_decomp)
  have wu: "wf u" using ru by (simp add: registered_def)
  have "dispatch P (Suc n') action' u =
          returning action' (invokeThrough P n' ahead B behind (committed u v' u1))"
    using dispatch_invokeSnapshot [OF wu gu assms(11,12) red'] sp
    by (simp add: invokeSnapshot_split)
  with sp have c5: "\<exists>ahead behind.
            arrays u ! nextListeners u = ahead @ B # behind \<and>
            dispatch P (Suc n') action' u =
              returning action' (invokeThrough P n' ahead B behind (committed u v' u1))"
    by blast
  from c1 c2 c3 sr(5) c5 show ?thesis by (intro conjI)
qed

text \<open>
  The listener 14 subscribes the listeners 4 and 2; the second call of \<open>subscribe\<close>
  finds a working array that is already a private copy. The first dispatch calls the
  listener 14 only and writes nothing to the log; the next one calls 14, 4 and 2, and the
  listener 2 writes \<open>B\<close> to the log.
\<close>

theorem subscribed_listener_runs_next_witness:
  "body (demo 14) = [Subscribe (Func 4), Subscribe (Func 2)] \<and>
   step demo 1 (Subscribe (Func 4)) (committed storeC1w (Num 1) (storeC1w\<lparr>isDispatching := True\<rparr>)) =
     Some (Returned (), storeC1w_during) \<and>
   subscribe (Func 2) storeC1w_during = (Returned 2, storeC1w_after) \<and>
   dispatch demo 20 (plainAction ''go'') storeC1w =
     Some (Returned (plainAction ''go''), storeC1w_after, [Func 14]) \<and>
   log storeC1w_after = [] \<and>
   arrays storeC1w_after ! nextListeners storeC1w_after = [Func 14, Func 4, Func 2] \<and>
   (\<exists>ahead behind.
      arrays storeC1w_after ! nextListeners storeC1w_after = ahead @ Func 2 # behind \<and>
      dispatch demo 20 (plainAction ''again'') storeC1w_after =
        returning (plainAction ''again'')
          (invokeThrough demo 19 ahead (Func 2) behind
             (committed storeC1w_after (Num 2) (storeC1w_after\<lparr>isDispatching := True\<rparr>)))) \<and>
   dispatch demo 20 (plainAction ''again'') storeC1w_after =
     Some (Returned (plainAction ''again''),
           \<lparr>currentReducer = Func 0, currentState = Num 2, currentListeners = 2, nextListeners = 3,
            isDispatching = False,
            arrays = [[], [Func 14], [Func 14, Func 4, Func 2],
                      [Func 14, Func 4, Func 2, Func 4, Func 2]],
            subscriptions = [(Func 14, True), (Func 4, True), (Func 2, True), (Func 4, True),
                             (Func 2, True)],
            log = [''C'', ''B'']\<rparr>,
           [Func 14, Func 4, Func 2])"
proof -
  have h1: "registered storeC1w"
    by (simp add: registered_def wf_def storeC1w_def subscribe_def initialStore_def
                  ensureCanMutateNextListeners_def isFunction_def Let_def)
  have h2: "\<not> isDispatching storeC1w" by code_simp
  have a1: "isPlainObject (plainAction ''go'')" by code_simp
  have a2: "getProp (plainAction ''go'') ''type'' \<noteq> Undefined" by code_simp
  have h5: "call demo 19 (currentReducer storeC1w) (currentState storeC1w) (plainAction ''go'')
              (storeC1w\<lparr>isDispatching := True\<rparr>) =
            Some (Returned (Num 1), storeC1w\<lparr>isDispatching := True\<rparr>)"
    by code_simp
  have h6: "Func 2 \<notin> set (arrays storeC1w ! nextListeners storeC1w)" by code_simp
  have st: "step demo 1 (Subscribe (Func 4))
              (committed storeC1w (Num 1) (storeC1w\<lparr>isDispatching := True\<rparr>)) =
            Some (Returned (), storeC1w_during)"
    by code_simp
  have h7: "runs demo (committed storeC1w (Num 1) (storeC1w\<lparr>isDispatching := True\<rparr>)) storeC1w_during"
    by (rule runs.after_step [OF runs.here st])
  have h8: "subscribe (Func 2) storeC1w_during = (Returned 2, storeC1w_after)" by code_simp
  have h9: "runs demo storeC1w_after storeC1w_after" by (rule runs.here)
  have h10: "snd (subscriptions storeC1w_after ! 2)" by code_simp
  have b1: "isPlainObject (plainAction ''again'')" by code_simp
  have b2: "getProp (plainAction ''again'') ''type'' \<noteq> Undefined" by code_simp
  have h13: "call demo 19 (currentReducer storeC1w_after) (currentState storeC1w_after)
               (plainAction ''again'') (storeC1w_after\<lparr>isDispatching := True\<rparr>) =
             Some (Returned (Num 2), storeC1w_after\<lparr>isDispatching := True\<rparr>)"
    by code_simp
  have x: "body (demo 14) = [Subscribe (Func 4), Subscribe (Func 2)]" by (simp add: demo_def)
  have d1: "dispatch demo 20 (plainAction ''go'') storeC1w =
     Some (Returned (plainAction ''go''), storeC1w_after, [Func 14])"
    by code_simp
  have l: "log storeC1w_after = []"
    "arrays storeC1w_after ! nextListeners storeC1w_after = [Func 14, Func 4, Func 2]"
    by code_simp+
  have d2: "dispatch demo 20 (plainAction ''again'') storeC1w_after =
     Some (Returned (plainAction ''again''),
           \<lparr>currentReducer = Func 0, currentState = Num 2, currentListeners = 2, nextListeners = 3,
            isDispatching = False,
            arrays = [[], [Func 14], [Func 14, Func 4, Func 2],
                      [Func 14, Func 4, Func 2, Func 4, Func 2]],
            subscriptions = [(Func 14, True), (Func 4, True), (Func 2, True), (Func 4, True),
                             (Func 2, True)],
            log = [''C'', ''B'']\<rparr>,
           [Func 14, Func 4, Func 2])"
    by code_simp
  have e: "\<exists>ahead behind.
      arrays storeC1w_after ! nextListeners storeC1w_after = ahead @ Func 2 # behind \<and>
      dispatch demo (Suc 19) (plainAction ''again'') storeC1w_after =
        returning (plainAction ''again'')
          (invokeThrough demo 19 ahead (Func 2) behind
             (committed storeC1w_after (Num 2) (storeC1w_after\<lparr>isDispatching := True\<rparr>)))"
    using subscribed_listener_runs_next [OF h1 h2 a1 a2 h5 h6 h7 h8 h9 h10 b1 b2 h13] by blast
  have e': "\<exists>ahead behind.
      arrays storeC1w_after ! nextListeners storeC1w_after = ahead @ Func 2 # behind \<and>
      dispatch demo 20 (plainAction ''again'') storeC1w_after =
        returning (plainAction ''again'')
          (invokeThrough demo 19 ahead (Func 2) behind
             (committed storeC1w_after (Num 2) (storeC1w_after\<lparr>isDispatching := True\<rparr>)))"
    using e by simp
  from x st h8 d1 l e' d2 show ?thesis by (intro conjI)
qed

text \<open>
  C1 as stated fails on three runs. In the first, the listener 1 subscribes the listener
  2 and the listener 8, registered after the listener 1, throws: the next dispatch commits
  the snapshot \<open>[1, 8, 2]\<close> and its phase ends at the listener 8, before the listener
  2 is reached. In the second, the listener 17 subscribes the listener 2 and calls the
  closure it got at once: the next dispatch commits a snapshot without the listener 2.
  In the third, the reducer of the next dispatch throws, and no listener is called. In
  all three the log, to which the listener 2 writes, is empty after the next dispatch.
\<close>

theorem subscribed_listener_counterexample:
  "body (demo 1) = [Subscribe (Func 2)] \<and>
   body (demo 8) = [Throw (Error ''listener failed'')] \<and>
   arrays storeC1x ! nextListeners storeC1x = [Func 1, Func 8] \<and>
   call demo 19 (currentReducer storeC1x) (currentState storeC1x) (plainAction ''go'')
     (storeC1x\<lparr>isDispatching := True\<rparr>) =
     Some (Returned (Num 1), storeC1x\<lparr>isDispatching := True\<rparr>) \<and>
   dispatch demo 20 (plainAction ''go'') storeC1x =
     Some (Thrown (Error ''listener failed''), storeC1x_after, [Func 1, Func 8]) \<and>
   arrays storeC1x_after ! nextListeners storeC1x_after = [Func 1, Func 8, Func 2] \<and>
   call demo 19 (currentReducer storeC1x_after) (currentState storeC1x_after) (plainAction ''again'')
     (storeC1x_after\<lparr>isDispatching := True\<rparr>) =
     Some (Returned (Num 2), storeC1x_after\<lparr>isDispatching := True\<rparr>) \<and>
   dispatch demo 20 (plainAction ''again'') storeC1x_after =
     Some (Thrown (Error ''listener failed''),
           \<lparr>currentReducer = Func 0, currentState = Num 2, currentListeners = 2, nextListeners = 3,
            isDispatching = False,
            arrays = [[], [Func 1, Func 8], [Func 1, Func 8, Func 2],
                      [Func 1, Func 8, Func 2, Func 2]],
            subscriptions = [(Func 1, True), (Func 8, True), (Func 2, True), (Func 2, True)],
            log = []\<rparr>,
           [Func 1, Func 8]) \<and>
   body (demo 2) = [Log ''B''] \<and>
   body (demo 17) = [Subscribe (Func 2), Unsubscribe 1] \<and>
   arrays storeC1y ! nextListeners storeC1y = [Func 17] \<and>
   dispatch demo 20 (plainAction ''go'') storeC1y =
     Some (Returned (plainAction ''go''), storeC1y_after, [Func 17]) \<and>
   dispatch demo 20 (plainAction ''again'') storeC1y_after =
     Some (Returned (plainAction ''again''),
           \<lparr>currentReducer = Func 0, currentState = Num 2, currentListeners = 2, nextListeners = 3,
            isDispatching = False,
            arrays = [[], [Func 17], [Func 17], [Func 17, Func 2]],
            subscriptions = [(Func 17, True), (Func 2, False), (Func 2, True)],
            log = []\<rparr>,
           [Func 17]) \<and>
   arrays storeC1z ! nextListeners storeC1z = [Func 1] \<and>
   dispatch demo 20 (plainAction ''go'') storeC1z =
     Some (Returned (plainAction ''go''), storeC1z_after, [Func 1]) \<and>
   arrays storeC1z_after ! nextListeners storeC1z_after = [Func 1, Func 2] \<and>
   dispatch demo 20 (plainAction ''boom'') storeC1z_after =
     Some (Thrown (Error ''boom''), storeC1z_after, [])"
proof -
  have b: "body (demo 1) = [Subscribe (Func 2)]" "body (demo 8) = [Throw (Error ''listener failed'')]"
    "body (demo 2) = [Log ''B'']" "body (demo 17) = [Subscribe (Func 2), Unsubscribe 1]"
    by (simp_all add: demo_def)
  have x1: "arrays storeC1x ! nextListeners storeC1x = [Func 1, Func 8]" by code_simp
  have x2: "call demo 19 (currentReducer storeC1x) (currentState storeC1x) (plainAction ''go'')
     (storeC1x\<lparr>isDispatching := True\<rparr>) =
     Some (Returned (Num 1), storeC1x\<lparr>isDispatching := True\<rparr>)" by code_simp
  have x3: "dispatch demo 20 (plainAction ''go'') storeC1x =
     Some (Thrown (Error ''listener failed''), storeC1x_after, [Func 1, Func 8])" by code_simp
  have x4: "arrays storeC1x_after ! nextListeners storeC1x_after = [Func 1, Func 8, Func 2]" by code_simp
  have x5: "call demo 19 (currentReducer storeC1x_after) (currentState storeC1x_after) (plainAction ''again'')
     (storeC1x_after\<lparr>isDispatching := True\<rparr>) =
     Some (Returned (Num 2), storeC1x_after\<lparr>isDispatching := True\<rparr>)" by code_simp
  have x6: "dispatch demo 20 (plainAction ''again'') storeC1x_after =
     Some (Thrown (Error ''listener failed''),
           \<lparr>currentReducer = Func 0, currentState = Num 2, currentListeners = 2, nextListeners = 3,
            isDispatching = False,
            arrays = [[], [Func 1, Func 8], [Func 1, Func 8, Func 2],
                      [Func 1, Func 8, Func 2, Func 2]],
            subscriptions = [(Func 1, True), (Func 8, True), (Func 2, True), (Func 2, True)],
            log = []\<rparr>,
           [Func 1, Func 8])" by code_simp
  have y1: "arrays storeC1y ! nextListeners storeC1y = [Func 17]" by code_simp
  have y2: "dispatch demo 20 (plainAction ''go'') storeC1y =
     Some (Returned (plainAction ''go''), storeC1y_after, [Func 17])" by code_simp
  have y3: "dispatch demo 20 (plainAction ''again'') storeC1y_after =
     Some (Returned (plainAction ''again''),
           \<lparr>currentReducer = Func 0, currentState = Num 2, currentListeners = 2, nextListeners = 3,
            isDispatching = False,
            arrays = [[], [Func 17], [Func 17], [Func 17, Func 2]],
            subscriptions = [(Func 17, True), (Func 2, False), (Func 2, True)],
            log = []\<rparr>,
           [Func 17])" by code_simp
  have z1: "arrays storeC1z ! nextListeners storeC1z = [Func 1]" by code_simp
  have z2: "dispatch demo 20 (plainAction ''go'') storeC1z =
     Some (Returned (plainAction ''go''), storeC1z_after, [Func 1])" by code_simp
  have z3: "arrays storeC1z_after ! nextListeners storeC1z_after = [Func 1, Func 2]" by code_simp
  have z4: "dispatch demo 20 (plainAction ''boom'') storeC1z_after =
     Some (Thrown (Error ''boom''), storeC1z_after, [])" by code_simp
  from b(1,2) x1 x2 x3 x4 x5 x6 b(3,4) y1 y2 y3 z1 z2 z3 z4 show ?thesis by (intro conjI)
qed

text \<open>
  C2 (as amended). A dispatch of a well-formed action begins in an idle store \<open>s\<close>
  with a consistent listener registry, in which the closure \<open>t\<close> of listener \<open>C\<close> is
  subscribed, and its reducer returns \<open>v\<close>. In a store \<open>w\<close> reached after the commit, a
  listener calls the closure \<open>t\<close> for the first time. Then that call returns, removes
  \<open>C\<close> from the working list, and leaves the committed array as it was; and the
  snapshot is \<open>ahead @ C # behind\<close>, the notification phase calling the listeners ahead
  of \<open>C\<close> and, once they have all returned, \<open>C\<close>, whether or not \<open>C\<close> has been
  unsubscribed meanwhile. If a listener ahead of \<open>C\<close> throws, the phase ends there.
\<close>

theorem unsubscribed_listener_still_runs:
  assumes "registered s" and "\<not> isDispatching s"
    and "isPlainObject action" and "getProp action ''type'' \<noteq> Undefined"
    and red: "call P n (currentReducer s) (currentState s) action (s\<lparr>isDispatching := True\<rparr>) =
           Some (Returned v, s1)"
    and "t < length (subscriptions s)" and "subscriptions s ! t = (C, True)"
    and during: "runs P (committed s v s1) w"
    and first: "snd (subscriptions w ! t)"
  shows "fst (unsubscribe t w) = Returned () \<and>
         arrays (snd (unsubscribe t w)) ! nextListeners (snd (unsubscribe t w)) =
           remove1 C (arrays w ! nextListeners w) \<and>
         arrays (snd (unsubscribe t w)) ! nextListeners s = arrays s ! nextListeners s \<and>
         (\<exists>ahead behind.
            arrays s ! nextListeners s = ahead @ C # behind \<and>
            dispatch P (Suc n) action s =
              returning action (invokeThrough P n ahead C behind (committed s v s1)))"
proof -
  have w: "wf s" using assms(1) by (simp add: registered_def)
  note cr = committed_registered [OF assms(1) red, of v]
  have iw: "idle registered w" using runs_registered [OF during cr(1)] .
  have fw: "idle (frozen (nextListeners s) (arrays s ! nextListeners s)) w"
    using runs_frozen [OF during cr(3)] .
  have "idle (closureOf t C) (committed s v s1)"
    using cr(1,2) assms(6,7) by (simp add: idle_def closureOf_def)
  then have "idle (closureOf t C) w" using runs_closureOf [OF during] by simp
  then have tw: "t < length (subscriptions w)" and "fst (subscriptions w ! t) = C"
    by (simp_all add: idle_def closureOf_def)
  with first have aw: "subscriptions w ! t = (C, True)" by (simp add: prod_eq_iff)
  note ur = unsubscribe_removes [OF iw tw aw]
  have "frozen (nextListeners s) (arrays s ! nextListeners s) (snd (unsubscribe t w))"
    using frozen_unsubscribe fw by (simp add: idle_def)
  then have c3: "arrays (snd (unsubscribe t w)) ! nextListeners s = arrays s ! nextListeners s"
    by (simp add: frozen_def)
  have "C \<in> set (arrays s ! nextListeners s)" using active_in_working [OF assms(1,6,7)] .
  then obtain ahead behind where sp: "arrays s ! nextListeners s = ahead @ C # behind"
    by (auto simp: in_set_conv_decomp)
  have "dispatch P (Suc n) action s =
          returning action (invokeThrough P n ahead C behind (committed s v s1))"
    using dispatch_invokeSnapshot [OF w assms(2,3,4) red] sp
    by (simp add: invokeSnapshot_split)
  with sp have c4: "\<exists>ahead behind.
            arrays s ! nextListeners s = ahead @ C # behind \<and>
            dispatch P (Suc n) action s =
              returning action (invokeThrough P n ahead C behind (committed s v s1))"
    by blast
  from ur(1,2) c3 c4 show ?thesis by (intro conjI)
qed

text \<open>
  The listener 3 unsubscribes the listener 4, registered after it: the dispatch calls both,
  the listener 4 writes \<open>C\<close> to the log, and the working list left holds the listener 3
  only.
\<close>

theorem unsubscribed_listener_still_runs_witness:
  "body (demo 3) = [Unsubscribe 1] \<and>
   arrays storeC2 ! nextListeners storeC2 = [Func 3, Func 4] \<and>
   subscriptions storeC2 ! 1 = (Func 4, True) \<and>
   fst (unsubscribe 1 (committed storeC2 (Num 1) (storeC2\<lparr>isDispatching := True\<rparr>))) = Returned () \<and>
   arrays (snd (unsubscribe 1 (committed storeC2 (Num 1) (storeC2\<lparr>isDispatching := True\<rparr>)))) ! 2 = [Func 3] \<and>
   arrays (snd (unsubscribe 1 (committed storeC2 (Num 1) (storeC2\<lparr>isDispatching := True\<rparr>)))) ! 1 =
     [Func 3, Func 4] \<and>
   (\<exists>ahead behind.
      arrays storeC2 ! nextListeners storeC2 = ahead @ Func 4 # behind \<and>
      dispatch demo 20 (plainAction ''go'') storeC2 =
        returning (plainAction ''go'')
          (invokeThrough demo 19 ahead (Func 4) behind
             (committed storeC2 (Num 1) (storeC2\<lparr>isDispatching := True\<rparr>)))) \<and>
   dispatch demo 20 (plainAction ''go'') storeC2 =
     Some (Returned (plainAction ''go''), storeC2_after, [Func 3, Func 4]) \<and>
   subscriptions storeC2_after ! 1 = (Func 4, False) \<and>
   log storeC2_after = [''C'']"
proof -
  let ?w = "committed storeC2 (Num 1) (storeC2\<lparr>isDispatching := True\<rparr>)"
  have h1: "registered storeC2"
    by (simp add: registered_def wf_def storeC2_def subscribe_def initialStore_def
                  ensureCanMutateNextListeners_def isFunction_def Let_def)
  have h2: "\<not> isDispatching storeC2" by code_simp
  have a1: "isPlainObject (plainAction ''go'')" by code_simp
  have a2: "getProp (plainAction ''go'') ''type'' \<noteq> Undefined" by code_simp
  have h5: "call demo 19 (currentReducer storeC2) (currentState storeC2) (plainAction ''go'')
              (storeC2\<lparr>isDispatching := True\<rparr>) =
            Some (Returned (Num 1), storeC2\<lparr>isDispatching := True\<rparr>)"
    by code_simp
  have h6: "1 < length (subscriptions storeC2)" by code_simp
  have h7: "subscriptions storeC2 ! 1 = (Func 4, True)" by code_simp
  have h8: "runs demo ?w ?w" by (rule runs.here)
  have h9: "snd (subscriptions ?w ! 1)" by code_simp
  note T = unsubscribed_listener_still_runs [OF h1 h2 a1 a2 h5 h6 h7 h8 h9]
  have x: "body (demo 3) = [Unsubscribe 1]" by (simp add: demo_def)
  have y: "arrays storeC2 ! nextListeners storeC2 = [Func 3, Func 4]" by code_simp
  have u1: "fst (unsubscribe 1 ?w) = Returned ()" using T by blast
  have u2: "arrays (snd (unsubscribe 1 ?w)) ! 2 = [Func 3]" by code_simp
  have u3: "arrays (snd (unsubscribe 1 ?w)) ! 1 = [Func 3, Func 4]" by code_simp
  have e: "\<exists>ahead behind.
      arrays storeC2 ! nextListeners storeC2 = ahead @ Func 4 # behind \<and>
      dispatch demo (Suc 19) (plainAction ''go'') storeC2 =
        returning (plainAction ''go'') (invokeThrough demo 19 ahead (Func 4) behind ?w)"
    using T by blast
  have e': "\<exists>ahead behind.
      arrays storeC2 ! nextListeners storeC2 = ahead @ Func 4 # behind \<and>
      dispatch demo 20 (plainAction ''go'') storeC2 =
        returning (plainAction ''go'') (invokeThrough demo 19 ahead (Func 4) behind ?w)"
    using e by simp
  have d: "dispatch demo 20 (plainAction ''go'') storeC2 =
     Some (Returned (plainAction ''go''), storeC2_after, [Func 3, Func 4])" by code_simp
  have z: "subscriptions storeC2_after ! 1 = (Func 4, False)" "log storeC2_after = [''C'']"
    by code_simp+
  from x y h7 u1 u2 u3 e' d z show ?thesis by (intro conjI)
qed

text \<open>
  C2 as stated fails when a listener between the unsubscribing one and \<open>C\<close> throws:
  the listener 13 unsubscribes the listener 4, the listener 8 throws, and the listener 4,
  the last of the snapshot, is not called: the log is empty.
\<close>

theorem unsubscribed_listener_counterexample:
  "body (demo 13) = [Unsubscribe 2] \<and>
   body (demo 8) = [Throw (Error ''listener failed'')] \<and>
   body (demo 4) = [Log ''C''] \<and>
   arrays storeC2x ! nextListeners storeC2x = [Func 13, Func 8, Func 4] \<and>
   subscriptions storeC2x ! 2 = (Func 4, True) \<and>
   call demo 19 (currentReducer storeC2x) (currentState storeC2x) (plainAction ''go'')
     (storeC2x\<lparr>isDispatching := True\<rparr>) =
     Some (Returned (Num 1), storeC2x\<lparr>isDispatching := True\<rparr>) \<and>
   dispatch demo 20 (plainAction ''go'') storeC2x =
     Some (Thrown (Error ''listener failed''),
           \<lparr>currentReducer = Func 0, currentState = Num 1, currentListeners = 1, nextListeners = 2,
            isDispatching = False,
            arrays = [[], [Func 13, Func 8, Func 4], [Func 13, Func 8]],
            subscriptions = [(Func 13, True), (Func 8, True), (Func 4, False)],
            log = []\<rparr>,
           [Func 13, Func 8])"
proof -
  have b: "body (demo 13) = [Unsubscribe 2]" "body (demo 8) = [Throw (Error ''listener failed'')]"
    "body (demo 4) = [Log ''C'']"
    by (simp_all add: demo_def)
  have x1: "arrays storeC2x ! nextListeners storeC2x = [Func 13, Func 8, Func 4]" by code_simp
  have x2: "subscriptions storeC2x ! 2 = (Func 4, True)" by code_simp
  have x3: "call demo 19 (currentReducer storeC2x) (currentState storeC2x) (plainAction ''go'')
     (storeC2x\<lparr>isDispatching := True\<rparr>) =
     Some (Returned (Num 1), storeC2x\<lparr>isDispatching := True\<rparr>)" by code_simp
  have x4: "dispatch demo 20 (plainAction ''go'') storeC2x =
     Some (Thrown (Error ''listener failed''),
           \<lparr>currentReducer = Func 0, currentState = Num 1, currentListeners = 1, nextListeners = 2,
            isDispatching = False,
            arrays = [[], [Func 13, Func 8, Func 4], [Func 13, Func 8]],
            subscriptions = [(Func 13, True), (Func 8, True), (Func 4, False)],
            log = []\<rparr>,
           [Func 13, Func 8])" by code_simp
  from b x1 x2 x3 x4 show ?thesis by (intro conjI)
qed

section \<open>Failures of dispatch\<close>

text \<open>
  C3 (as amended). While the Dispatch Gate is set, which is the case throughout a
  reducer's execution, every call of dispatch fails and returns the store as it was
  given: with the validation error when its action is malformed, and with "Reducers may
  not dispatch actions." otherwise. The reducer's run, whatever calls it makes, ends
  with the gate still set and \<open>currentState\<close> as it was. After the outer dispatch the
  gate is clear. If the reducer threw, the outer dispatch throws the same error and
  \<open>currentState\<close> is the prior state. If it returned \<open>v\<close>, the outer dispatch is the
  notification phase begun in the store where \<open>v\<close> is committed, and \<open>currentState\<close>
  is still \<open>v\<close> afterwards unless a listener called dispatch or replaceReducer.
\<close>

theorem reentrant_dispatch_fails:
  assumes "wf s" and "\<not> isDispatching s"
    and "isPlainObject action" and "getProp action ''type'' \<noteq> Undefined"
    and red: "call P n (currentReducer s) (currentState s) action (s\<lparr>isDispatching := True\<rparr>) =
           Some (r1, s1)"
    and out: "dispatch P (Suc n) action s = Some (r, s', called)"
  shows "dispatch P (Suc m) inner (u\<lparr>isDispatching := True\<rparr>) =
           Some (Thrown (Error
                   (if \<not> isPlainObject inner
                    then ''Actions must be plain objects. '' @ ''Use custom middleware for async actions.''
                    else if getProp inner ''type'' = Undefined
                    then ''Actions may not have an undefined '' @ [CHR 0x22] @ ''type'' @ [CHR 0x22] @
                         '' property. Have you misspelled a constant?''
                    else ''Reducers may not dispatch actions.'')),
                 u\<lparr>isDispatching := True\<rparr>, []) \<and>
         isDispatching s1 \<and> currentState s1 = currentState s \<and>
         \<not> isDispatching s' \<and>
         (case r1 of
            Thrown e \<Rightarrow> r = Thrown e \<and> s' = s1\<lparr>isDispatching := False\<rparr> \<and> currentState s' = currentState s
          | Returned v \<Rightarrow>
              Some (r, s', called) =
                returning action (invokeSnapshot P n (arrays s ! nextListeners s) (committed s v s1)) \<and>
              currentState (committed s v s1) = v \<and>
              (list_all (quietListener P) called \<longrightarrow> currentState s' = v))"
proof -
  have g: "gateRun (s\<lparr>isDispatching := True\<rparr>) s1" using call_gate [OF _ red] by simp
  have f: "isDispatching s1" "currentState s1 = currentState s" using gateRun_fields [OF g] by simp_all
  have c: "\<not> isDispatching s'" using dispatch_gate_clear [OF assms(2) out] .
  have i: "dispatch P (Suc m) inner (u\<lparr>isDispatching := True\<rparr>) =
           Some (Thrown (Error
                   (if \<not> isPlainObject inner
                    then ''Actions must be plain objects. '' @ ''Use custom middleware for async actions.''
                    else if getProp inner ''type'' = Undefined
                    then ''Actions may not have an undefined '' @ [CHR 0x22] @ ''type'' @ [CHR 0x22] @
                         '' property. Have you misspelled a constant?''
                    else ''Reducers may not dispatch actions.'')),
                 u\<lparr>isDispatching := True\<rparr>, [])"
    by simp
  have k: "case r1 of
            Thrown e \<Rightarrow> r = Thrown e \<and> s' = s1\<lparr>isDispatching := False\<rparr> \<and> currentState s' = currentState s
          | Returned v \<Rightarrow>
              Some (r, s', called) =
                returning action (invokeSnapshot P n (arrays s ! nextListeners s) (committed s v s1)) \<and>
              currentState (committed s v s1) = v \<and>
              (list_all (quietListener P) called \<longrightarrow> currentState s' = v)"
  proof (cases r1)
    case (Thrown e)
    with assms f show ?thesis by auto
  next
    case (Returned v)
    let ?s3 = "s1\<lparr>currentState := v, isDispatching := False, currentListeners := nextListeners s\<rparr>"
    from dispatch_unfold [of action s P n v s1] assms Returned out obtain r2 where
      n2: "notify P n (nextListeners s) 0 ?s3 = Some (r2, s', called)"
      by (auto split: option.splits completion.splits)
    have q: "list_all (quietListener P) called \<longrightarrow> currentState s' = v"
      using quiet_notify [OF committed_frozen [OF assms(1) g] n2] by simp
    have e: "Some (r, s', called) =
                returning action (invokeSnapshot P n (arrays s ! nextListeners s) (committed s v s1))"
      using dispatch_invokeSnapshot [OF assms(1,2,3,4)] red Returned out by simp
    have "currentState (committed s v s1) = v" by (simp add: committed_def)
    with Returned q e show ?thesis by simp
  qed
  from i f c k show ?thesis by (intro conjI)
qed

text \<open>
  The reducer 5 calls dispatch inside try/catch and returns: the state is its return value.
  The reducer 12 calls dispatch and lets the error through: the state is the prior one.
\<close>

theorem reentrant_dispatch_fails_witness:
  "dispatch demo 1 (plainAction ''inner'') ((initialStore (Func 5) (Num 0))\<lparr>isDispatching := True\<rparr>) =
     Some (Thrown (Error ''Reducers may not dispatch actions.''),
           (initialStore (Func 5) (Num 0))\<lparr>isDispatching := True\<rparr>, []) \<and>
   dispatch demo 20 (plainAction ''go'') (initialStore (Func 5) (Num 0)) =
     Some (Returned (plainAction ''go''), initialStore (Func 5) (Num 1), []) \<and>
   currentState (initialStore (Func 5) (Num 1)) = Num 1 \<and>
   dispatch demo 20 (plainAction ''go'') (initialStore (Func 12) (Num 0)) =
     Some (Thrown (Error ''Reducers may not dispatch actions.''), initialStore (Func 12) (Num 0), []) \<and>
   currentState (initialStore (Func 12) (Num 0)) = Num 0"
proof -
  have w: "wf (initialStore r x)" for r x by (simp add: wf_def initialStore_def)
  have i: "\<not> isDispatching (initialStore r x)" for r x by (simp add: initialStore_def)
  have a1: "isPlainObject (plainAction ''go'')" by code_simp
  have a2: "getProp (plainAction ''go'') ''type'' \<noteq> Undefined" by code_simp
  have b1: "isPlainObject (plainAction ''inner'')" by code_simp
  have b2: "getProp (plainAction ''inner'') ''type'' \<noteq> Undefined" by code_simp
  have r5: "call demo 19 (currentReducer (initialStore (Func 5) (Num 0)))
                 (currentState (initialStore (Func 5) (Num 0))) (plainAction ''go'')
                 ((initialStore (Func 5) (Num 0))\<lparr>isDispatching := True\<rparr>) =
              Some (Returned (Num 1), (initialStore (Func 5) (Num 0))\<lparr>isDispatching := True\<rparr>)"
    by code_simp
  have o5: "dispatch demo (Suc 19) (plainAction ''go'') (initialStore (Func 5) (Num 0)) =
              Some (Returned (plainAction ''go''), initialStore (Func 5) (Num 1), [])"
    by code_simp
  have r12: "call demo 19 (currentReducer (initialStore (Func 12) (Num 0)))
                 (currentState (initialStore (Func 12) (Num 0))) (plainAction ''go'')
                 ((initialStore (Func 12) (Num 0))\<lparr>isDispatching := True\<rparr>) =
              Some (Thrown (Error ''Reducers may not dispatch actions.''),
                    (initialStore (Func 12) (Num 0))\<lparr>isDispatching := True\<rparr>)"
    by code_simp
  have o12: "dispatch demo (Suc 19) (plainAction ''go'') (initialStore (Func 12) (Num 0)) =
              Some (Thrown (Error ''Reducers may not dispatch actions.''), initialStore (Func 12) (Num 0), [])"
    by code_simp
  have t1: "dispatch demo 1 (plainAction ''inner'') ((initialStore (Func 5) (Num 0))\<lparr>isDispatching := True\<rparr>) =
     Some (Thrown (Error ''Reducers may not dispatch actions.''),
           (initialStore (Func 5) (Num 0))\<lparr>isDispatching := True\<rparr>, [])"
    using reentrant_dispatch_fails [OF w i a1 a2 r5 o5, where m = 0 and u = "initialStore (Func 5) (Num 0)"
                                      and inner = "plainAction ''inner''"] b1 b2
    by simp
  have t2: "currentState (initialStore (Func 5) (Num 1)) = Num 1"
    "currentState (initialStore (Func 12) (Num 0)) = Num 0"
    by (simp_all add: initialStore_def)
  have o5': "dispatch demo 20 (plainAction ''go'') (initialStore (Func 5) (Num 0)) =
              Some (Returned (plainAction ''go''), initialStore (Func 5) (Num 1), [])"
    and o12': "dispatch demo 20 (plainAction ''go'') (initialStore (Func 12) (Num 0)) =
              Some (Thrown (Error ''Reducers may not dispatch actions.''), initialStore (Func 12) (Num 0), [])"
    using o5 o12 by simp_all
  from t1 o5' t2(1) o12' t2(2) show ?thesis by (intro conjI)
qed

theorem reentrant_dispatch_counterexample:
  "dispatch demo 1 (Num 42) ((initialStore (Func 6) (Num 0))\<lparr>isDispatching := True\<rparr>) =
     Some (Thrown (Error ''Actions must be plain objects. Use custom middleware for async actions.''),
           (initialStore (Func 6) (Num 0))\<lparr>isDispatching := True\<rparr>, []) \<and>
   body (demo 6) = [Dispatch (Num 42)] \<and>
   dispatch demo 20 (plainAction ''go'') (initialStore (Func 6) (Num 0)) =
     Some (Thrown (Error ''Actions must be plain objects. Use custom middleware for async actions.''),
           initialStore (Func 6) (Num 0), [])"
proof -
  have a: "dispatch demo 1 (Num 42) ((initialStore (Func 6) (Num 0))\<lparr>isDispatching := True\<rparr>) =
     Some (Thrown (Error ''Actions must be plain objects. Use custom middleware for async actions.''),
           (initialStore (Func 6) (Num 0))\<lparr>isDispatching := True\<rparr>, [])"
    by code_simp
  have b: "body (demo 6) = [Dispatch (Num 42)]" by (simp add: demo_def)
  have c: "dispatch demo 20 (plainAction ''go'') (initialStore (Func 6) (Num 0)) =
     Some (Thrown (Error ''Actions must be plain objects. Use custom middleware for async actions.''),
           initialStore (Func 6) (Num 0), [])"
    by code_simp
  from a b c show ?thesis by (intro conjI)
qed

text \<open>
  C4. A valid action is dispatched to an idle store and the reducer's invocation throws
  \<open>e\<close>, leaving the store \<open>s1\<close>. Then dispatch throws \<open>e\<close> to its caller with the
  Dispatch Gate cleared, \<open>currentState\<close> as before the call, and no listener called;
  the store is usable: \<open>getState\<close> returns the prior state, and only the variables a
  reducer can reach (the reducer reference, the callbacks' log) may differ.
\<close>

theorem reducer_error_keeps_store:
  assumes "isPlainObject action" and "getProp action ''type'' \<noteq> Undefined"
    and "\<not> isDispatching s"
    and "call P n (currentReducer s) (currentState s) action (s\<lparr>isDispatching := True\<rparr>) =
           Some (Thrown e, s1)"
  shows "dispatch P (Suc n) action s = Some (Thrown e, s1\<lparr>isDispatching := False\<rparr>, []) \<and>
         \<not> isDispatching (s1\<lparr>isDispatching := False\<rparr>) \<and>
         currentState (s1\<lparr>isDispatching := False\<rparr>) = currentState s \<and>
         getState (s1\<lparr>isDispatching := False\<rparr>) =
           (Returned (currentState s), s1\<lparr>isDispatching := False\<rparr>) \<and>
         s1\<lparr>isDispatching := False\<rparr> = s\<lparr>currentReducer := currentReducer s1, log := log s1\<rparr>"
proof -
  have g: "gateRun (s\<lparr>isDispatching := True\<rparr>) s1" using call_gate [OF _ assms(4)] by simp
  have f: "currentState s1 = currentState s" using gateRun_fields [OF g] by simp
  have "s1\<lparr>isDispatching := False\<rparr> = s\<lparr>currentReducer := currentReducer s1, log := log s1\<rparr>"
    using g assms(3) by (cases s; cases s1; simp add: gateRun_def)
  with assms f show ?thesis by (simp add: getState_def)
qed

theorem reducer_error_keeps_store_witness:
  "dispatch demo 3 (plainAction ''boom'') (initialStore (Func 7) (Num 0)) =
     Some (Thrown (Error ''boom''), initialStore (Func 7) (Num 0), []) \<and>
   getState (initialStore (Func 7) (Num 0)) = (Returned (Num 0), initialStore (Func 7) (Num 0))"
proof -
  have h1: "isPlainObject (plainAction ''boom'')" by code_simp
  have h2: "getProp (plainAction ''boom'') ''type'' \<noteq> Undefined" by code_simp
  have h3: "\<not> isDispatching (initialStore (Func 7) (Num 0))" by code_simp
  have h4: "call demo 2 (currentReducer (initialStore (Func 7) (Num 0)))
                 (currentState (initialStore (Func 7) (Num 0))) (plainAction ''boom'')
                 ((initialStore (Func 7) (Num 0))\<lparr>isDispatching := True\<rparr>) =
              Some (Thrown (Error ''boom''), (initialStore (Func 7) (Num 0))\<lparr>isDispatching := True\<rparr>)"
    by code_simp
  show ?thesis
    using reducer_error_keeps_store [OF h1 h2 h3 h4]
    by (simp add: initialStore_def numeral_3_eq_3)
qed

text \<open>
  C7. Dispatching a value that is not a plain record (the number 42, an array, null)
  fails with the "must be plain objects" error, and dispatching a plain record whose
  \<open>type\<close> is undefined (such as \<open>{}\<close>) fails with the undefined-type error. Both
  checks come before the reducer is called: the store returned is the store given,
  whatever the program, and no listener is called.
\<close>

theorem malformed_action_rejected:
  "(\<not> isPlainObject action \<longrightarrow>
      dispatch P (Suc n) action s =
        Some (Thrown (Error (''Actions must be plain objects. '' @
                             ''Use custom middleware for async actions.'')), s, [])) \<and>
   (isPlainObject action \<and> getProp action ''type'' = Undefined \<longrightarrow>
      dispatch P (Suc n) action s =
        Some (Thrown (Error (''Actions may not have an undefined '' @ [CHR 0x22] @ ''type'' @ [CHR 0x22] @
                             '' property. Have you misspelled a constant?'')), s, [])) \<and>
   \<not> isPlainObject (Num 42) \<and> \<not> isPlainObject (Arr xs) \<and> \<not> isPlainObject Null \<and>
   isPlainObject (Obj []) \<and> getProp (Obj []) ''type'' = Undefined"
  by (simp add: isPlainObject_def getProp_def)

theorem malformed_action_rejected_witness:
  "dispatch demo 1 (Num 42) (initialStore (Func 0) (Num 0)) =
     Some (Thrown (Error ''Actions must be plain objects. Use custom middleware for async actions.''),
           initialStore (Func 0) (Num 0), []) \<and>
   dispatch demo 1 (Obj []) (initialStore (Func 0) (Num 0)) =
     Some (Thrown (Error (''Actions may not have an undefined '' @ [CHR 0x22] @ ''type'' @ [CHR 0x22] @
                          '' property. Have you misspelled a constant?'')),
           initialStore (Func 0) (Num 0), [])"
proof -
  have a: "\<not> isPlainObject (Num 42)" by code_simp
  have b: "isPlainObject (Obj []) \<and> getProp (Obj []) ''type'' = Undefined" by code_simp
  show ?thesis
    using a b
      malformed_action_rejected [where action = "Num 42" and P = demo and n = 0
                                   and s = "initialStore (Func 0) (Num 0)" and xs = "[]"]
      malformed_action_rejected [where action = "Obj []" and P = demo and n = 0
                                   and s = "initialStore (Func 0) (Num 0)" and xs = "[]"]
    by simp
qed

text \<open>
  C10 (as amended). The reducer returns \<open>v\<close> and the notification loop, started on the
  store in which \<open>v\<close> is committed, ends with a listener throwing \<open>e\<close>. Then dispatch
  throws \<open>e\<close> to its caller and leaves the store as it was at the throw: the gate is
  clear, \<open>getState\<close> succeeds, and the state is \<open>v\<close> provided none of the listeners
  called contains a call of dispatch or replaceReducer. The listeners called are a
  non-empty prefix of the committed snapshot, the last of them being the one that threw,
  so those positioned after it were not called by this loop; the loop did what the phase
  of the spec does on that snapshot.
\<close>

theorem listener_error_after_commit:
  assumes "wf s" and "\<not> isDispatching s"
    and "isPlainObject action" and "getProp action ''type'' \<noteq> Undefined"
    and red: "call P n (currentReducer s) (currentState s) action (s\<lparr>isDispatching := True\<rparr>) =
           Some (Returned v, s1)"
    and lis: "notify P n (nextListeners s) 0
             (s1\<lparr>currentState := v, isDispatching := False, currentListeners := nextListeners s\<rparr>) =
           Some (Thrown e, s', called)"
  shows "dispatch P (Suc n) action s = Some (Thrown e, s', called) \<and>
         \<not> isDispatching s' \<and>
         getState s' = (Returned (currentState s'), s') \<and>
         (list_all (quietListener P) called \<longrightarrow> currentState s' = v) \<and>
         called \<noteq> [] \<and> called = take (length called) (arrays s ! nextListeners s) \<and>
         (\<exists>m u. call P m (last called) Undefined Undefined u = Some (Thrown e, s')) \<and>
         invokeSnapshot P n (arrays s ! nextListeners s) (committed s v s1) = Some (Thrown e, s', called)"
proof -
  have g: "gateRun (s\<lparr>isDispatching := True\<rparr>) s1" using call_gate [OF _ red] by simp
  have d: "dispatch P (Suc n) action s = Some (Thrown e, s', called)"
    using dispatch_unfold [of action s P n v s1] assms by simp
  have c: "\<not> isDispatching s'" using dispatch_gate_clear [OF assms(2) d] .
  have q: "list_all (quietListener P) called \<longrightarrow> currentState s' = v"
    using quiet_notify [OF committed_frozen [OF assms(1) g] lis] by simp
  have p: "called = take (length called) (arrays s ! nextListeners s)"
    using dispatch_called [OF assms(1,2) d] by simp
  have "invokeSnapshot P n (drop 0 (arrays s ! nextListeners s)) (committed s v s1) = Some (Thrown e, s', called)"
    using notify_invokeSnapshot [OF committed_frozen [OF assms(1) g, of v], where P = P and n = n and i = 0] lis
    by (simp add: committed_def)
  then have x: "invokeSnapshot P n (arrays s ! nextListeners s) (committed s v s1) = Some (Thrown e, s', called)"
    by simp
  have y: "getState s' = (Returned (currentState s'), s')" using c by (simp add: getState_def)
  from notify_thrower [OF lis] have z: "called \<noteq> []"
    "\<exists>m u. call P m (last called) Undefined Undefined u = Some (Thrown e, s')" by simp_all
  from d c y q z(1) p z(2) x show ?thesis by (intro conjI)
qed

text \<open>
  The listener 8 throws and the listener 2, registered after it, would write to the log.
\<close>

theorem listener_error_after_commit_witness:
  "dispatch demo 20 (plainAction ''go'') storeC10 =
     Some (Thrown (Error ''listener failed''),
           storeC10\<lparr>currentState := Num 1, currentListeners := 1\<rparr>, [Func 8]) \<and>
   arrays storeC10 ! nextListeners storeC10 = [Func 8, Func 2] \<and>
   list_all (quietListener demo) [Func 8] \<and>
   currentState storeC10 = Num 0 \<and>
   getState (storeC10\<lparr>currentState := Num 1, currentListeners := 1\<rparr>) =
     (Returned (Num 1), storeC10\<lparr>currentState := Num 1, currentListeners := 1\<rparr>) \<and>
   log (storeC10\<lparr>currentState := Num 1, currentListeners := 1\<rparr>) = []"
proof -
  have w: "wf storeC10" by code_simp
  have i: "\<not> isDispatching storeC10" by code_simp
  have a1: "isPlainObject (plainAction ''go'')" by code_simp
  have a2: "getProp (plainAction ''go'') ''type'' \<noteq> Undefined" by code_simp
  have r: "call demo 19 (currentReducer storeC10) (currentState storeC10) (plainAction ''go'')
             (storeC10\<lparr>isDispatching := True\<rparr>) =
           Some (Returned (Num 1), storeC10\<lparr>isDispatching := True\<rparr>)"
    by code_simp
  have l: "notify demo 19 (nextListeners storeC10) 0
             (storeC10\<lparr>isDispatching := True\<rparr>
                \<lparr>currentState := Num 1, isDispatching := False, currentListeners := nextListeners storeC10\<rparr>) =
           Some (Thrown (Error ''listener failed''),
                 storeC10\<lparr>currentState := Num 1, currentListeners := 1\<rparr>, [Func 8])"
    by code_simp
  have x: "arrays storeC10 ! nextListeners storeC10 = [Func 8, Func 2]" "currentState storeC10 = Num 0"
    "log (storeC10\<lparr>currentState := Num 1, currentListeners := 1\<rparr>) = []"
    by code_simp+
  have q: "list_all (quietListener demo) [Func 8]" by (simp add: quietListener_def demo_def)
  note T = listener_error_after_commit [OF w i a1 a2 r l]
  have d: "dispatch demo 20 (plainAction ''go'') storeC10 =
     Some (Thrown (Error ''listener failed''),
           storeC10\<lparr>currentState := Num 1, currentListeners := 1\<rparr>, [Func 8])"
    using T by simp
  have gs: "getState (storeC10\<lparr>currentState := Num 1, currentListeners := 1\<rparr>) =
     (Returned (Num 1), storeC10\<lparr>currentState := Num 1, currentListeners := 1\<rparr>)"
    using T q by simp
  from d x(1) q x(2) gs x(3) show ?thesis by (intro conjI)
qed

text \<open>
  C10 as stated fails when a listener called before the throwing one dispatches again:
  the reducer 15 flips the state from false to true, the listener 16 sees true and
  dispatches inside try/catch an action that flips it back, and the listener 8 throws.
  \<open>getState\<close> then returns false, the state before the dispatch.
\<close>

theorem listener_error_counterexample:
  "result (demo 15) (Bool False) (plainAction ''toggle'') = Inr (Bool True) \<and>
   result (demo 15) (Bool True) (plainAction ''back'') = Inr (Bool False) \<and>
   body (demo 8) = [Throw (Error ''listener failed'')] \<and>
   currentState storeC10x = Bool False \<and>
   arrays storeC10x ! nextListeners storeC10x = [Func 16, Func 8] \<and>
   call demo 19 (currentReducer storeC10x) (currentState storeC10x) (plainAction ''toggle'')
     (storeC10x\<lparr>isDispatching := True\<rparr>) =
     Some (Returned (Bool True), storeC10x\<lparr>isDispatching := True\<rparr>) \<and>
   call demo 18 (Func 16) Undefined Undefined
     (committed storeC10x (Bool True) (storeC10x\<lparr>isDispatching := True\<rparr>)) =
     Some (Returned Undefined, storeC10x\<lparr>currentListeners := 1\<rparr>) \<and>
   dispatch demo 20 (plainAction ''toggle'') storeC10x =
     Some (Thrown (Error ''listener failed''), storeC10x\<lparr>currentListeners := 1\<rparr>, [Func 16, Func 8]) \<and>
   getState (storeC10x\<lparr>currentListeners := 1\<rparr>) = (Returned (Bool False), storeC10x\<lparr>currentListeners := 1\<rparr>)"
proof -
  have a: "result (demo 15) (Bool False) (plainAction ''toggle'') = Inr (Bool True)"
    "result (demo 15) (Bool True) (plainAction ''back'') = Inr (Bool False)"
    "body (demo 8) = [Throw (Error ''listener failed'')]"
    by (simp_all add: demo_def toggle_def)
  have b: "currentState storeC10x = Bool False" by code_simp
  have c: "arrays storeC10x ! nextListeners storeC10x = [Func 16, Func 8]" by code_simp
  have d: "call demo 19 (currentReducer storeC10x) (currentState storeC10x) (plainAction ''toggle'')
     (storeC10x\<lparr>isDispatching := True\<rparr>) =
     Some (Returned (Bool True), storeC10x\<lparr>isDispatching := True\<rparr>)" by code_simp
  have e: "call demo 18 (Func 16) Undefined Undefined
     (committed storeC10x (Bool True) (storeC10x\<lparr>isDispatching := True\<rparr>)) =
     Some (Returned Undefined, storeC10x\<lparr>currentListeners := 1\<rparr>)" by code_simp
  have f: "dispatch demo 20 (plainAction ''toggle'') storeC10x =
     Some (Thrown (Error ''listener failed''), storeC10x\<lparr>currentListeners := 1\<rparr>, [Func 16, Func 8])"
    by code_simp
  have g: "getState (storeC10x\<lparr>currentListeners := 1\<rparr>) =
     (Returned (Bool False), storeC10x\<lparr>currentListeners := 1\<rparr>)" by code_simp
  from a b c d e f g show ?thesis by (intro conjI)
qed

section \<open>Middleware and composition\<close>

text \<open>
  C5. In the store returned by \<open>applyMiddleware(M1, M2)\<close>, dispatch is \<open>M1\<close>'s wrapper
  around \<open>M2\<close>'s wrapper around the base store's dispatch: the leftmost middleware is
  outermost and sees the action first. For two middlewares that log on entry and on exit
  around calling \<open>next\<close>, one dispatched action for which the store's own dispatch
  returns extends the log by \<open>M1 enter, M2 enter\<close>, then what the store's dispatch
  (its reducer and listeners) wrote, then \<open>M2 exit, M1 exit\<close>.
\<close>

theorem middleware_order:
  "obj_dispatch (applyMiddleware [m1, m2] (Suc k) create args) =
     m1 \<lparr>api_getState = obj_getState (create args),
         api_dispatch = obj_dispatch (applyMiddleware [m1, m2] k create args)\<rparr>
       (m2 \<lparr>api_getState = obj_getState (create args),
            api_dispatch = obj_dispatch (applyMiddleware [m1, m2] k create args)\<rparr>
          (obj_dispatch (create args))) \<and>
   (obj_dispatch (storeOf P n) action (s\<lparr>log := log s @ [n1 @ '' enter'', n2 @ '' enter'']\<rparr>) =
      Some (Returned r, s1) \<longrightarrow>
    (\<exists>base. log s1 = log s @ [n1 @ '' enter'', n2 @ '' enter''] @ base \<and>
       obj_dispatch (applyMiddleware [logging n1, logging n2] (Suc k) (storeOf P) n) action s =
         Some (Returned r,
               s1\<lparr>log := log s @ [n1 @ '' enter'', n2 @ '' enter''] @ base @
                            [n2 @ '' exit'', n1 @ '' exit'']\<rparr>)))"
proof (intro conjI impI)
  show "obj_dispatch (applyMiddleware [m1, m2] (Suc k) create args) =
     m1 \<lparr>api_getState = obj_getState (create args),
         api_dispatch = obj_dispatch (applyMiddleware [m1, m2] k create args)\<rparr>
       (m2 \<lparr>api_getState = obj_getState (create args),
            api_dispatch = obj_dispatch (applyMiddleware [m1, m2] k create args)\<rparr>
          (obj_dispatch (create args)))"
    by (simp add: applyMiddleware_def Let_def)
next
  let ?s0 = "s\<lparr>log := log s @ [n1 @ '' enter'', n2 @ '' enter'']\<rparr>"
  assume b: "obj_dispatch (storeOf P n) action ?s0 = Some (Returned r, s1)"
  then obtain called where "dispatch P n action ?s0 = Some (Returned r, s1, called)"
    by (auto simp: storeOf_def split: option.splits)
  from dispatch_log [OF this] obtain base where
    l: "log s1 = log s @ [n1 @ '' enter'', n2 @ '' enter''] @ base" by auto
  have "obj_dispatch (applyMiddleware [logging n1, logging n2] (Suc k) (storeOf P) n) action s =
         Some (Returned r, s1\<lparr>log := log s1 @ [n2 @ '' exit'', n1 @ '' exit'']\<rparr>)"
    using b by (simp add: applyMiddleware_def Let_def logging_def)
  with l show "\<exists>base. log s1 = log s @ [n1 @ '' enter'', n2 @ '' enter''] @ base \<and>
       obj_dispatch (applyMiddleware [logging n1, logging n2] (Suc k) (storeOf P) n) action s =
         Some (Returned r,
               s1\<lparr>log := log s @ [n1 @ '' enter'', n2 @ '' enter''] @ base @
                            [n2 @ '' exit'', n1 @ '' exit'']\<rparr>)"
    by auto
qed

theorem middleware_order_witness:
  "obj_dispatch (applyMiddleware [logging ''M1'', logging ''M2''] 1 (storeOf demo) 20)
     (plainAction ''go'') storeC5 =
   Some (Returned (plainAction ''go''), storeC5_after) \<and>
   log storeC5 = [] \<and>
   log storeC5_after = [''M1 enter'', ''M2 enter'', ''B'', ''M2 exit'', ''M1 exit'']"
proof -
  have h: "obj_dispatch (storeOf demo 20) (plainAction ''go'')
             (storeC5\<lparr>log := log storeC5 @ [''M1'' @ '' enter'', ''M2'' @ '' enter'']\<rparr>) =
           Some (Returned (plainAction ''go''), storeC5_after\<lparr>log := [''M1 enter'', ''M2 enter'', ''B'']\<rparr>)"
    by code_simp
  have x: "log storeC5 = []" by code_simp
  show ?thesis
    using middleware_order [where P = demo and n = 20 and k = 0
                              and action = "plainAction ''go''" and s = storeC5
                              and ?n1.0 = "''M1''" and ?n2.0 = "''M2''"
                              and r = "plainAction ''go''"
                              and ?s1.0 = "storeC5_after\<lparr>log := [''M1 enter'', ''M2 enter'', ''B'']\<rparr>",
                            THEN conjunct2, THEN mp, OF h] x
    by (auto simp: storeC5_after_def)
qed

text \<open>
  C6. \<open>compose()\<close> is the identity function; \<open>compose(f)\<close> is \<open>f\<close> itself, returned
  unwrapped (equality of functions is all that HOL can say of "the same reference");
  and for any list of unary functions \<open>compose(f1, ..., fn)(x)\<close> is
  \<open>f1(f2(...fn(x)...))\<close>: the rightmost function receives the argument and every other
  one the result before it, as in \<open>compose(a, b, c)(x) = a(b(c(x)))\<close>.
\<close>

theorem compose_right_to_left:
  "compose [] = (\<lambda>x::'a. x) \<and> compose [f::'a \<Rightarrow> 'a] = f \<and>
   compose fs (x::'a) = rightToLeft fs x \<and>
   compose [a, b, c] x = a (b (c x)) \<and>
   compose (g # h # hs) x = g (compose (h # hs) x)"
proof -
  have r: "compose fs x = rightToLeft fs x" for fs :: "('a \<Rightarrow> 'a) list" and x
    by (cases fs rule: compose.cases) (simp_all add: foldl_compose)
  have c1: "compose [] = (\<lambda>x::'a. x)" and c2: "compose [f] = f"
    and c4: "compose [a, b, c] x = a (b (c x))"
    by simp_all
  have c5: "compose (g # h # hs) x = g (compose (h # hs) x)"
    using r [of "g # h # hs" x] r [of "h # hs" x] by (simp del: compose.simps)
  show ?thesis by (intro conjI c1 c2 r c4 c5)
qed

section \<open>replaceReducer and unsubscribe\<close>

text \<open>
  C8 (as amended). In an idle store, \<open>replaceReducer\<close> fails if its argument is not a
  function; otherwise it assigns the new reducer and dispatches the reserved "replace"
  action, so the new reducer is called on the state the store already holds: when it
  returns \<open>v\<close> (and no listener dispatches further), \<open>getState()\<close> afterwards is \<open>v\<close>.
  A reducer written with a default parameter returns the state it is given unless that
  state is undefined, so replacing a reducer defaulting to \<open>{x: 1}\<close> by one defaulting
  to \<open>{y: 2}\<close> leaves \<open>{x: 1}\<close>.
\<close>

theorem replaceReducer_keeps_state:
  assumes "wf s" and "\<not> isDispatching s" and "isFunction nextReducer"
    and red: "call P n nextReducer (currentState s) (Obj [(''type'', ActionTypes_REPLACE)])
                (s\<lparr>currentReducer := nextReducer, isDispatching := True\<rparr>) = Some (Returned v, s1)"
    and out: "replaceReducer P (Suc (Suc n)) nextReducer s = Some (r, s')"
    and qu: "list_all (quietListener P) (arrays s ! nextListeners s)"
  shows "(\<not> isFunction bad \<longrightarrow>
            replaceReducer P (Suc m) bad s =
              Some (Thrown (Error ''Expected the nextReducer to be a function.''), s)) \<and>
         replaceReducer P (Suc (Suc n)) nextReducer s =
           (case dispatch P (Suc n) (Obj [(''type'', ActionTypes_REPLACE)]) (s\<lparr>currentReducer := nextReducer\<rparr>) of
              None \<Rightarrow> None
            | Some (r, s1, called) \<Rightarrow> Some (discard r, s1)) \<and>
         getState s' = (Returned v, s') \<and>
         (result (P k) = defaulting d \<and> nextReducer = Func k \<longrightarrow>
            v = (if currentState s = Undefined then d else currentState s))"
proof -
  let ?a = "Obj [(''type'', ActionTypes_REPLACE)]"
  let ?s0 = "s\<lparr>currentReducer := nextReducer\<rparr>"
  have v1: "isPlainObject ?a" "getProp ?a ''type'' \<noteq> Undefined"
    by (simp_all add: isPlainObject_def getProp_def ActionTypes_REPLACE_def)
  have w0: "wf ?s0" "\<not> isDispatching ?s0" using assms(1,2) by (simp_all add: wf_def)
  have red0: "call P n (currentReducer ?s0) (currentState ?s0) ?a (?s0\<lparr>isDispatching := True\<rparr>) =
                Some (Returned v, s1)"
    using red by simp
  from out assms(3) obtain r0 called where
    d: "dispatch P (Suc n) ?a ?s0 = Some (r0, s', called)"
    by (auto split: option.splits)
  have g: "gateRun (?s0\<lparr>isDispatching := True\<rparr>) s1" using call_gate [OF _ red0] by simp
  let ?s3 = "s1\<lparr>currentState := v, isDispatching := False, currentListeners := nextListeners ?s0\<rparr>"
  from dispatch_unfold [OF v1 w0(2) red0] d obtain r2 where
    n2: "notify P n (nextListeners ?s0) 0 ?s3 = Some (r2, s', called)"
    by (auto split: option.splits completion.splits)
  have "called = take (length called) (arrays ?s0 ! nextListeners ?s0)"
    using dispatch_called [OF w0 d] by (cases r0) simp_all
  then have "list_all (quietListener P) called"
    using qu list_all_take [of "quietListener P" "arrays s ! nextListeners s" "length called"] by simp
  then have cs: "currentState s' = v"
    using quiet_notify [OF committed_frozen [OF w0(1) g] n2] by simp
  have gc: "\<not> isDispatching s'" using dispatch_gate_clear [OF w0(2) d] .
  have dv: "result (P k) = defaulting d \<and> nextReducer = Func k \<longrightarrow>
            v = (if currentState s = Undefined then d else currentState s)"
  proof
    assume a: "result (P k) = defaulting d \<and> nextReducer = Func k"
    from red obtain n' where n': "n = Suc n'" by (cases n) simp_all
    from red a n' show "v = (if currentState s = Undefined then d else currentState s)"
      by (auto simp: defaulting_def split: option.splits completion.splits)
  qed
  from assms(3) cs gc dv show ?thesis by (simp add: getState_def)
qed

theorem replaceReducer_keeps_state_witness:
  "replaceReducer demo 1 (Num 3) storeC8 =
     Some (Thrown (Error ''Expected the nextReducer to be a function.''), storeC8) \<and>
   replaceReducer demo 20 (Func 11) storeC8 = Some (Returned (), storeC8\<lparr>currentReducer := Func 11\<rparr>) \<and>
   getState (storeC8\<lparr>currentReducer := Func 11\<rparr>) =
     (Returned (Obj [(''x'', Num 1)]), storeC8\<lparr>currentReducer := Func 11\<rparr>)"
proof -
  have w: "wf storeC8" by code_simp
  have i: "\<not> isDispatching storeC8" by code_simp
  have f: "isFunction (Func 11)" by code_simp
  have red: "call demo 18 (Func 11) (currentState storeC8) (Obj [(''type'', ActionTypes_REPLACE)])
               (storeC8\<lparr>currentReducer := Func 11, isDispatching := True\<rparr>) =
             Some (Returned (Obj [(''x'', Num 1)]), storeC8\<lparr>currentReducer := Func 11, isDispatching := True\<rparr>)"
    by code_simp
  have out: "replaceReducer demo (Suc (Suc 18)) (Func 11) storeC8 =
               Some (Returned (), storeC8\<lparr>currentReducer := Func 11\<rparr>)"
    by code_simp
  have qu: "list_all (quietListener demo) (arrays storeC8 ! nextListeners storeC8)"
    by (simp add: storeC8_def initialStore_def)
  have b: "\<not> isFunction (Num 3)" by code_simp
  have o20: "replaceReducer demo 20 (Func 11) storeC8 = Some (Returned (), storeC8\<lparr>currentReducer := Func 11\<rparr>)"
    by code_simp
  show ?thesis
    using replaceReducer_keeps_state [OF w i f red out qu, where bad = "Num 3" and m = 0
                                        and k = 11 and d = "Obj [(''y'', Num 2)]"] b o20
    by simp
qed

theorem replaceReducer_counterexample:
  "createStore demo 20 (Func 10) Undefined Undefined = Some (Store storeC8) \<and>
   result (demo 10) = defaulting (Obj [(''x'', Num 1)]) \<and>
   result (demo 11) = defaulting (Obj [(''y'', Num 2)]) \<and>
   replaceReducer demo 20 (Func 11) storeC8 = Some (Returned (), storeC8\<lparr>currentReducer := Func 11\<rparr>) \<and>
   getState (storeC8\<lparr>currentReducer := Func 11\<rparr>) =
     (Returned (Obj [(''x'', Num 1)]), storeC8\<lparr>currentReducer := Func 11\<rparr>) \<and>
   Obj [(''x'', Num 1)] \<noteq> Obj [(''y'', Num 2)]"
proof -
  have a: "createStore demo 20 (Func 10) Undefined Undefined = Some (Store storeC8)" by code_simp
  have b: "result (demo 10) = defaulting (Obj [(''x'', Num 1)])"
    and c: "result (demo 11) = defaulting (Obj [(''y'', Num 2)])"
    by (simp_all add: demo_def)
  have d: "replaceReducer demo 20 (Func 11) storeC8 = Some (Returned (), storeC8\<lparr>currentReducer := Func 11\<rparr>)"
    by code_simp
  have e: "getState (storeC8\<lparr>currentReducer := Func 11\<rparr>) =
     (Returned (Obj [(''x'', Num 1)]), storeC8\<lparr>currentReducer := Func 11\<rparr>)"
    by code_simp
  have f: "Obj [(''x'', Num 1)] \<noteq> Obj [(''y'', Num 2)]" by simp
  show ?thesis by (intro conjI a b c d e f)
qed

text \<open>
  C9. For a closure \<open>t\<close> returned by \<open>subscribe(l)\<close> on a store with a
  consistent listener registry: if it has been called successfully before, a call is a
  no-op that returns without error, whether or not the Dispatch Gate is set; if not, a
  call while the gate is set fails with an error and changes nothing, and a call in the
  idle store removes the first occurrence of \<open>l\<close> from the working list, leaves the
  committed array as it was, and makes every later call a no-op.
\<close>

theorem unsubscribe_idempotent:
  assumes "registered s" and "t < length (subscriptions s)" and "subscriptions s ! t = (l, b)"
  shows "(\<not> b \<longrightarrow> unsubscribe t s = (Returned (), s)) \<and>
         (b \<and> isDispatching s \<longrightarrow>
            unsubscribe t s =
              (Thrown (Error (''You may not unsubscribe from a store listener while the reducer is executing. '' @
                              ''See https://redux.js.org/api-reference/store#subscribe(listener) for more details.'')), s)) \<and>
         (b \<and> \<not> isDispatching s \<longrightarrow>
            fst (unsubscribe t s) = Returned () \<and>
            arrays (snd (unsubscribe t s)) ! nextListeners (snd (unsubscribe t s)) =
              remove1 l (arrays s ! nextListeners s) \<and>
            currentListeners (snd (unsubscribe t s)) = currentListeners s \<and>
            arrays (snd (unsubscribe t s)) ! currentListeners s = arrays s ! currentListeners s \<and>
            subscriptions (snd (unsubscribe t s)) = (subscriptions s)[t := (l, False)] \<and>
            unsubscribe t (snd (unsubscribe t s)) = (Returned (), snd (unsubscribe t s)))"
proof (intro conjI impI)
  assume "\<not> b"
  with assms(3) show "unsubscribe t s = (Returned (), s)" by (simp add: unsubscribe_def)
next
  assume "b \<and> isDispatching s"
  with assms(3) show "unsubscribe t s =
              (Thrown (Error (''You may not unsubscribe from a store listener while the reducer is executing. '' @
                              ''See https://redux.js.org/api-reference/store#subscribe(listener) for more details.'')), s)"
    by (simp add: unsubscribe_def)
next
  assume a: "b \<and> \<not> isDispatching s"
  with assms(3) have act: "subscriptions s ! t = (l, True)" by simp
  have mem: "l \<in> set (arrays s ! nextListeners s)" using active_in_working [OF assms(1,2) act] .
  from assms(1) have w: "currentListeners s < length (arrays s)" "nextListeners s < length (arrays s)"
    by (simp_all add: registered_def wf_def)
  show "fst (unsubscribe t s) = Returned ()"
    using a act by (simp add: unsubscribe_def Let_def)
  show "arrays (snd (unsubscribe t s)) ! nextListeners (snd (unsubscribe t s)) =
              remove1 l (arrays s ! nextListeners s)"
    using a act w mem
    by (auto simp: unsubscribe_def ensureCanMutateNextListeners_def Let_def nth_append splice_indexOf)
  show "currentListeners (snd (unsubscribe t s)) = currentListeners s"
    using a act by (simp add: unsubscribe_def ensureCanMutateNextListeners_def Let_def)
  show "arrays (snd (unsubscribe t s)) ! currentListeners s = arrays s ! currentListeners s"
    using a act w
    by (auto simp: unsubscribe_def ensureCanMutateNextListeners_def Let_def nth_append nth_list_update)
  show s: "subscriptions (snd (unsubscribe t s)) = (subscriptions s)[t := (l, False)]"
    using a act by (simp add: unsubscribe_def ensureCanMutateNextListeners_def Let_def)
  have "\<not> snd (subscriptions (snd (unsubscribe t s)) ! t)" using s assms(2) by simp
  then show "unsubscribe t (snd (unsubscribe t s)) = (Returned (), snd (unsubscribe t s))"
    by (simp add: unsubscribe_def Let_def)
qed

theorem unsubscribe_idempotent_witness:
  "unsubscribe 0 storeC9 = (Returned (), storeC9_after) \<and>
   arrays storeC9 ! nextListeners storeC9 = [Func 2] \<and>
   arrays storeC9_after ! nextListeners storeC9_after = [] \<and>
   unsubscribe 0 storeC9_after = (Returned (), storeC9_after) \<and>
   unsubscribe 0 (storeC9_after\<lparr>isDispatching := True\<rparr>) =
     (Returned (), storeC9_after\<lparr>isDispatching := True\<rparr>) \<and>
   fst (unsubscribe 0 (storeC9\<lparr>isDispatching := True\<rparr>)) =
     Thrown (Error (''You may not unsubscribe from a store listener while the reducer is executing. '' @
                    ''See https://redux.js.org/api-reference/store#subscribe(listener) for more details.'')) \<and>
   snd (unsubscribe 0 (storeC9\<lparr>isDispatching := True\<rparr>)) = storeC9\<lparr>isDispatching := True\<rparr>"
proof -
  have r1: "registered storeC9"
    by (simp add: registered_def wf_def storeC9_def subscribe_def initialStore_def
                  ensureCanMutateNextListeners_def isFunction_def Let_def)
  have r2: "registered storeC9_after" by (simp add: registered_def wf_def storeC9_after_def)
  have r3: "registered (storeC9\<lparr>isDispatching := True\<rparr>)"
    using r1 by (simp add: registered_def wf_def)
  have r4: "registered (storeC9_after\<lparr>isDispatching := True\<rparr>)"
    using r2 by (simp add: registered_def wf_def)
  have t1: "0 < length (subscriptions storeC9)" by code_simp
  have t2: "0 < length (subscriptions storeC9_after)" by code_simp
  have t3: "0 < length (subscriptions (storeC9\<lparr>isDispatching := True\<rparr>))" by code_simp
  have t4: "0 < length (subscriptions (storeC9_after\<lparr>isDispatching := True\<rparr>))" by code_simp
  have a1: "subscriptions storeC9 ! 0 = (Func 2, True)" by code_simp
  have a2: "subscriptions storeC9_after ! 0 = (Func 2, False)" by code_simp
  have a3: "subscriptions (storeC9\<lparr>isDispatching := True\<rparr>) ! 0 = (Func 2, True)" by code_simp
  have a4: "subscriptions (storeC9_after\<lparr>isDispatching := True\<rparr>) ! 0 = (Func 2, False)" by code_simp
  have g1: "\<not> isDispatching storeC9" by code_simp
  have u: "unsubscribe 0 storeC9 = (Returned (), storeC9_after)" by code_simp
  have x: "arrays storeC9 ! nextListeners storeC9 = [Func 2]"
    "arrays storeC9_after ! nextListeners storeC9_after = []"
    by code_simp+
  show ?thesis
    using unsubscribe_idempotent [OF r1 t1 a1] unsubscribe_idempotent [OF r2 t2 a2]
      unsubscribe_idempotent [OF r3 t3 a3] unsubscribe_idempotent [OF r4 t4 a4] g1 u x
    by simp
qed

end
